theory Spec2Isabelle
  imports Complex_Main "HOL-Library.Word"
begin

section \<open>Data model\<close>

text \<open>
  \<^verbatim>\<open>std::size_t\<close> is the unsigned 64-bit integer of an LP64 target: \<open>+\<close>, \<open>-\<close>
  wrap around, \<open>div\<close> and \<open>mod\<close> are the unsigned \<^verbatim>\<open>/\<close> and \<^verbatim>\<open>%\<close>.
\<close>

type_synonym size_t = "64 word"

text \<open>The three codes of \<^verbatim>\<open>ConcurrentHashmapException\<close>.\<close>

datatype ConcurrentHashmapException = InvalidCapacity | InvalidConcurrencyLevel | KeyNotFound

text \<open>
  Every way an operation can end other than by returning:
  \<^item> \<open>Exception c\<close>: \<^verbatim>\<open>throw ConcurrentHashmapException(c)\<close>;
  \<^item> \<open>BadArrayNewLength\<close>: the \<^verbatim>\<open>std::bad_array_new_length\<close> of an array
    \<^verbatim>\<open>new\<close> whose byte size does not fit \<^verbatim>\<open>std::size_t\<close>;
  \<^item> \<open>UndefinedBehaviour\<close>: \<^verbatim>\<open>/\<close> or \<^verbatim>\<open>%\<close> by zero, or an array read out of range;
  \<^item> \<open>Blocked\<close>: \<^verbatim>\<open>lock()\<close> on a mutex that is held; the caller does not proceed.
\<close>

datatype error = Exception ConcurrentHashmapException | BadArrayNewLength
  | UndefinedBehaviour | Blocked

text \<open>
  \<^verbatim>\<open>struct Node { const Key key; Value value; Node* next; }\<close>. A chain is the list of its
  nodes from \<^verbatim>\<open>mHead\<close> on, \<^verbatim>\<open>next\<close> being the tail of the list and \<^verbatim>\<open>nullptr\<close>
  the empty list. A \<^verbatim>\<open>Node*\<close> into a chain is the position of the node in it.
\<close>

record ('k, 'v) Node =
  Node_key :: 'k
  Node_value :: 'v

type_synonym ('k, 'v) NodeList = "('k, 'v) Node list"

text \<open>
  The members of \<^verbatim>\<open>ConcurrentHashmap\<close>. \<open>mMutexes\<close> holds for each mutex whether it
  is locked.
\<close>

record ('k, 'v) ConcurrentHashmap =
  mCapacity :: size_t
  mMutexCount :: size_t
  mIndicesPerMutex :: size_t
  mHasher :: "'k \<Rightarrow> size_t"
  mSize :: size_t
  mTable :: "('k, 'v) NodeList list"
  mMutexes :: "bool list"

section \<open>NodeList\<close>

text \<open>
  \<^verbatim>\<open>Node* node = mHead; while (node && node->key != key) node = node->next; return node;\<close>
\<close>

fun NodeList_find :: "('k, 'v) NodeList \<Rightarrow> 'k \<Rightarrow> nat option" where
  "NodeList_find [] k = None"
| "NodeList_find (node # rest) k =
     (if Node_key node \<noteq> k
      then (case NodeList_find rest k of None \<Rightarrow> None | Some i \<Rightarrow> Some (Suc i))
      else Some 0)"

text \<open>
  Returns true if inserted, false if the key already existed and the value was overwritten
  (through the pointer \<^verbatim>\<open>find\<close> returned). A new node becomes the head.
\<close>

definition NodeList_insert :: "('k, 'v) NodeList \<Rightarrow> 'k \<Rightarrow> 'v \<Rightarrow> ('k, 'v) NodeList \<times> bool" where
  "NodeList_insert chain k v =
     (case NodeList_find chain k of
        Some i \<Rightarrow> (chain[i := (chain ! i)\<lparr>Node_value := v\<rparr>], False)
      | None \<Rightarrow> (\<lparr>Node_key = k, Node_value = v\<rparr> # chain, True))"

text \<open>
  The loop of \<^verbatim>\<open>erase\<close> behind the head: \<open>erase_scan ns k\<close> walks the nodes after
  \<^verbatim>\<open>prev\<close> and returns what \<^verbatim>\<open>prev->next\<close> is afterwards, and whether a node was
  unlinked.
\<close>

fun erase_scan :: "('k, 'v) NodeList \<Rightarrow> 'k \<Rightarrow> ('k, 'v) NodeList \<times> bool" where
  "erase_scan [] k = ([], False)"
| "erase_scan (node # rest) k =
     (if Node_key node \<noteq> k
      then (case erase_scan rest k of (rest', r) \<Rightarrow> (node # rest', r))
      else (rest, True))"

text \<open>Returns true if deleted, false if the key was not found.\<close>

fun NodeList_erase :: "('k, 'v) NodeList \<Rightarrow> 'k \<Rightarrow> ('k, 'v) NodeList \<times> bool" where
  "NodeList_erase [] k = ([], False)"
| "NodeList_erase (head # rest) k =
     (if Node_key head = k then (rest, True)
      else (case erase_scan rest k of (rest', r) \<Rightarrow> (head # rest', r)))"

section \<open>Construction\<close>

definition ConcurrencyLevelDefault :: size_t where
  "ConcurrencyLevelDefault = 16"

definition getMutexCount :: "size_t \<Rightarrow> size_t \<Rightarrow> error + size_t" where
  "getMutexCount capacity concurrencyLevel =
     (if capacity = 0 then Inl (Exception InvalidCapacity)
      else if concurrencyLevel = 0 then Inl (Exception InvalidConcurrencyLevel)
      else Inr (min concurrencyLevel capacity))"

definition getIndicesPerMutex :: "size_t \<Rightarrow> size_t \<Rightarrow> error + size_t" where
  "getIndicesPerMutex capacity mutexCount =
     (if mutexCount = 0 then Inl UndefinedBehaviour
      else if capacity mod mutexCount \<noteq> 0 then Inr ((capacity + mutexCount) div mutexCount)
      else Inr (capacity div mutexCount))"

text \<open>
  \<^verbatim>\<open>new T[n]\<close> throws \<^verbatim>\<open>std::bad_array_new_length\<close> when the byte size
  \<^verbatim>\<open>n * sizeof(T)\<close> is not representable in \<^verbatim>\<open>std::size_t\<close>; otherwise the model grants
  the array, every element default-constructed.
\<close>

definition new_array :: "size_t \<Rightarrow> nat \<Rightarrow> 'a \<Rightarrow> error + 'a list" where
  "new_array n elem_size init =
     (if unat n * elem_size < 2 ^ 64 then Inr (replicate (unat n) init)
      else Inl BadArrayNewLength)"

text \<open>\<^verbatim>\<open>NodeList\<close> has the one member \<^verbatim>\<open>Node* mHead\<close>: eight bytes.\<close>

definition sizeof_NodeList :: nat where
  "sizeof_NodeList = 8"

text \<open>
  The size of \<^verbatim>\<open>std::mutex\<close> is the library's choice; the model takes the least
  possible, one byte, so that it grants every mutex array a real target grants.
\<close>

definition sizeof_mutex :: nat where
  "sizeof_mutex = 1"

text \<open>
  The constructor, its member initialisers in the order of the member declarations:
  \<open>mCapacity\<close>, \<open>mMutexCount\<close>, \<open>mIndicesPerMutex\<close>, \<open>mHasher\<close>, \<open>mSize\<close>,
  \<open>mTable\<close>, \<open>mMutexes\<close>.
\<close>

definition ConcurrentHashmap_new ::
  "size_t \<Rightarrow> size_t \<Rightarrow> ('k \<Rightarrow> size_t) \<Rightarrow> error + ('k, 'v) ConcurrentHashmap" where
  "ConcurrentHashmap_new capacity concurrencyLevel hasher =
     (case getMutexCount capacity concurrencyLevel of
        Inl e \<Rightarrow> Inl e
      | Inr mutexCount \<Rightarrow>
     (case getIndicesPerMutex capacity mutexCount of
        Inl e \<Rightarrow> Inl e
      | Inr indicesPerMutex \<Rightarrow>
     (case new_array capacity sizeof_NodeList [] of
        Inl e \<Rightarrow> Inl e
      | Inr table \<Rightarrow>
     (case new_array mutexCount sizeof_mutex False of
        Inl e \<Rightarrow> Inl e
      | Inr mutexes \<Rightarrow>
          Inr \<lparr>mCapacity = capacity, mMutexCount = mutexCount,
               mIndicesPerMutex = indicesPerMutex, mHasher = hasher, mSize = 0,
               mTable = table, mMutexes = mutexes\<rparr>))))"

section \<open>Operations\<close>

text \<open>Reserved size of the hash table, and actual number of stored keys.\<close>

definition ConcurrentHashmap_capacity :: "('k, 'v) ConcurrentHashmap \<Rightarrow> size_t" where
  "ConcurrentHashmap_capacity m = mCapacity m"

definition ConcurrentHashmap_size :: "('k, 'v) ConcurrentHashmap \<Rightarrow> size_t" where
  "ConcurrentHashmap_size m = mSize m"

text \<open>\<^verbatim>\<open>return mHasher(key) % mCapacity;\<close>\<close>

definition getIndex :: "('k, 'v) ConcurrentHashmap \<Rightarrow> 'k \<Rightarrow> error + size_t" where
  "getIndex m key =
     (if mCapacity m = 0 then Inl UndefinedBehaviour
      else Inr (mHasher m key mod mCapacity m))"

text \<open>
  \<^verbatim>\<open>mutexIndex = tableIndex / mIndicesPerMutex; return mMutexes[mutexIndex];\<close>
  The reference returned is the position of the mutex in \<open>mMutexes\<close>.
\<close>

definition getMutex :: "('k, 'v) ConcurrentHashmap \<Rightarrow> size_t \<Rightarrow> error + nat" where
  "getMutex m tableIndex =
     (if mIndicesPerMutex m = 0 then Inl UndefinedBehaviour
      else let mutexIndex = tableIndex div mIndicesPerMutex m
           in if unat mutexIndex < length (mMutexes m) then Inr (unat mutexIndex)
              else Inl UndefinedBehaviour)"

text \<open>\<^verbatim>\<open>std::mutex::lock\<close> and \<^verbatim>\<open>unlock\<close> on the mutex at a position.\<close>

definition mutex_lock ::
  "nat \<Rightarrow> ('k, 'v) ConcurrentHashmap \<Rightarrow> error + ('k, 'v) ConcurrentHashmap" where
  "mutex_lock i m =
     (if mMutexes m ! i then Inl Blocked
      else Inr (m\<lparr>mMutexes := (mMutexes m)[i := True]\<rparr>))"

definition mutex_unlock ::
  "nat \<Rightarrow> ('k, 'v) ConcurrentHashmap \<Rightarrow> ('k, 'v) ConcurrentHashmap" where
  "mutex_unlock i m = m\<lparr>mMutexes := (mMutexes m)[i := False]\<rparr>"

text \<open>
  The two statements every operation starts with:
  \<^verbatim>\<open>const std::size_t index = getIndex(key); std::lock_guard<std::mutex> lock(getMutex(index));\<close>
  The result is the bucket index, the mutex locked and the container with that mutex held.
\<close>

definition acquire ::
  "('k, 'v) ConcurrentHashmap \<Rightarrow> 'k \<Rightarrow> error + (size_t \<times> nat \<times> ('k, 'v) ConcurrentHashmap)" where
  "acquire m key =
     (case getIndex m key of
        Inl e \<Rightarrow> Inl e
      | Inr index \<Rightarrow>
     (case getMutex m index of
        Inl e \<Rightarrow> Inl e
      | Inr mutex \<Rightarrow>
     (case mutex_lock mutex m of
        Inl e \<Rightarrow> Inl e
      | Inr m1 \<Rightarrow> Inr (index, mutex, m1))))"

text \<open>\<^verbatim>\<open>mTable[index]\<close>\<close>

definition table_at :: "('k, 'v) ConcurrentHashmap \<Rightarrow> size_t \<Rightarrow> error + ('k, 'v) NodeList" where
  "table_at m index =
     (if unat index < length (mTable m) then Inr (mTable m ! unat index)
      else Inl UndefinedBehaviour)"

text \<open>
  Each operation returns its result, or how it failed, together with the container
  afterwards. The lock guard's destructor runs on return and on throw alike.
\<close>

definition ConcurrentHashmap_find ::
  "'k \<Rightarrow> ('k, 'v) ConcurrentHashmap \<Rightarrow> (error + bool) \<times> ('k, 'v) ConcurrentHashmap" where
  "ConcurrentHashmap_find key m =
     (case acquire m key of
        Inl e \<Rightarrow> (Inl e, m)
      | Inr (index, mutex, m1) \<Rightarrow>
     (case table_at m1 index of
        Inl e \<Rightarrow> (Inl e, mutex_unlock mutex m1)
      | Inr chain \<Rightarrow> (Inr (NodeList_find chain key \<noteq> None), mutex_unlock mutex m1)))"

definition ConcurrentHashmap_getCopy ::
  "'k \<Rightarrow> ('k, 'v) ConcurrentHashmap \<Rightarrow> (error + 'v) \<times> ('k, 'v) ConcurrentHashmap" where
  "ConcurrentHashmap_getCopy key m =
     (case acquire m key of
        Inl e \<Rightarrow> (Inl e, m)
      | Inr (index, mutex, m1) \<Rightarrow>
     (case table_at m1 index of
        Inl e \<Rightarrow> (Inl e, mutex_unlock mutex m1)
      | Inr chain \<Rightarrow>
     (case NodeList_find chain key of
        Some i \<Rightarrow> (Inr (Node_value (chain ! i)), mutex_unlock mutex m1)
      | None \<Rightarrow> (Inl (Exception KeyNotFound), mutex_unlock mutex m1))))"

text \<open>
  \<^verbatim>\<open>get\<close> returns the value it refers to paired with the lock, which stays locked: the
  second component is the mutex the returned \<^verbatim>\<open>std::unique_lock\<close> owns. On the throwing
  path the \<^verbatim>\<open>unique_lock\<close> is destroyed and unlocks.
\<close>

definition ConcurrentHashmap_get ::
  "'k \<Rightarrow> ('k, 'v) ConcurrentHashmap \<Rightarrow> (error + 'v \<times> nat) \<times> ('k, 'v) ConcurrentHashmap" where
  "ConcurrentHashmap_get key m =
     (case acquire m key of
        Inl e \<Rightarrow> (Inl e, m)
      | Inr (index, mutex, m1) \<Rightarrow>
     (case table_at m1 index of
        Inl e \<Rightarrow> (Inl e, mutex_unlock mutex m1)
      | Inr chain \<Rightarrow>
     (case NodeList_find chain key of
        Some i \<Rightarrow> (Inr (Node_value (chain ! i), mutex), m1)
      | None \<Rightarrow> (Inl (Exception KeyNotFound), mutex_unlock mutex m1))))"

text \<open>The holder of a \<^verbatim>\<open>LockedValue\<close> releases its lock.\<close>

definition LockedValue_unlock ::
  "nat \<Rightarrow> ('k, 'v) ConcurrentHashmap \<Rightarrow> ('k, 'v) ConcurrentHashmap" where
  "LockedValue_unlock mutex m = mutex_unlock mutex m"

text \<open>Inserts a new key-value or overwrites the old value if the key already existed.\<close>

definition ConcurrentHashmap_insert ::
  "'k \<Rightarrow> 'v \<Rightarrow> ('k, 'v) ConcurrentHashmap \<Rightarrow> (error + unit) \<times> ('k, 'v) ConcurrentHashmap" where
  "ConcurrentHashmap_insert key v m =
     (case acquire m key of
        Inl e \<Rightarrow> (Inl e, m)
      | Inr (index, mutex, m1) \<Rightarrow>
     (case table_at m1 index of
        Inl e \<Rightarrow> (Inl e, mutex_unlock mutex m1)
      | Inr chain \<Rightarrow>
     (case NodeList_insert chain key v of
        (chain', inserted) \<Rightarrow>
          let m2 = m1\<lparr>mTable := (mTable m1)[unat index := chain']\<rparr>;
              m3 = (if inserted then m2\<lparr>mSize := mSize m2 + 1\<rparr> else m2)
          in (Inr (), mutex_unlock mutex m3))))"

text \<open>Deletes the key from the map or does nothing if the key is not found.\<close>

definition ConcurrentHashmap_erase ::
  "'k \<Rightarrow> ('k, 'v) ConcurrentHashmap \<Rightarrow> (error + unit) \<times> ('k, 'v) ConcurrentHashmap" where
  "ConcurrentHashmap_erase key m =
     (case acquire m key of
        Inl e \<Rightarrow> (Inl e, m)
      | Inr (index, mutex, m1) \<Rightarrow>
     (case table_at m1 index of
        Inl e \<Rightarrow> (Inl e, mutex_unlock mutex m1)
      | Inr chain \<Rightarrow>
     (case NodeList_erase chain key of
        (chain', erased) \<Rightarrow>
          let m2 = m1\<lparr>mTable := (mTable m1)[unat index := chain']\<rparr>;
              m3 = (if erased then m2\<lparr>mSize := mSize m2 - 1\<rparr> else m2)
          in (Inr (), mutex_unlock mutex m3))))"

section \<open>Histories, invariants and the map a container denotes\<close>

text \<open>
  The calls a client can make on a container, and the container a sequence of calls
  leaves behind. A call that fails leaves the container as the operation returned it.
\<close>

datatype ('k, 'v) call = Find 'k | GetCopy 'k | Get 'k | Insert 'k 'v | Erase 'k | Unlock nat

fun call_effect :: "('k, 'v) call \<Rightarrow> ('k, 'v) ConcurrentHashmap \<Rightarrow> ('k, 'v) ConcurrentHashmap" where
  "call_effect (Find key) m = snd (ConcurrentHashmap_find key m)"
| "call_effect (GetCopy key) m = snd (ConcurrentHashmap_getCopy key m)"
| "call_effect (Get key) m = snd (ConcurrentHashmap_get key m)"
| "call_effect (Insert key v) m = snd (ConcurrentHashmap_insert key v m)"
| "call_effect (Erase key) m = snd (ConcurrentHashmap_erase key m)"
| "call_effect (Unlock mutex) m = LockedValue_unlock mutex m"

definition run :: "('k, 'v) call list \<Rightarrow> ('k, 'v) ConcurrentHashmap \<Rightarrow> ('k, 'v) ConcurrentHashmap" where
  "run calls m = fold call_effect calls m"

text \<open>The stripe lock of a key is free: acquiring it does not block.\<close>

definition stripe_free :: "('k, 'v) ConcurrentHashmap \<Rightarrow> 'k \<Rightarrow> bool" where
  "stripe_free m key \<longleftrightarrow> acquire m key \<noteq> Inl Blocked"

text \<open>
  The layout the constructor establishes: a positive capacity whose bucket array could
  be allocated, between one and \<open>mCapacity\<close> mutexes, the stride computed from the two,
  and arrays of these lengths.
\<close>

definition layout_ok :: "('k, 'v) ConcurrentHashmap \<Rightarrow> bool" where
  "layout_ok m \<longleftrightarrow>
     mCapacity m \<noteq> 0 \<and> mMutexCount m \<noteq> 0 \<and> mMutexCount m \<le> mCapacity m \<and>
     unat (mCapacity m) * sizeof_NodeList < 2 ^ 64 \<and>
     getIndicesPerMutex (mCapacity m) (mMutexCount m) = Inr (mIndicesPerMutex m) \<and>
     length (mTable m) = unat (mCapacity m) \<and>
     length (mMutexes m) = unat (mMutexCount m)"

text \<open>At most one entry per distinct key in a chain.\<close>

definition unique_keys :: "('k, 'v) NodeList \<Rightarrow> bool" where
  "unique_keys chain \<longleftrightarrow> distinct (map Node_key chain)"

text \<open>Every node sits in the chain of the bucket its key is hashed to.\<close>

definition bucket_ok :: "('k, 'v) ConcurrentHashmap \<Rightarrow> bool" where
  "bucket_ok m \<longleftrightarrow>
     (\<forall>i \<in> {0..<length (mTable m)}. \<forall>node \<in> set (mTable m ! i).
        getIndex m (Node_key node) = Inr (word_of_nat i))"

definition ConcurrentHashmap_inv :: "('k, 'v) ConcurrentHashmap \<Rightarrow> bool" where
  "ConcurrentHashmap_inv m \<longleftrightarrow>
     layout_ok m \<and> bucket_ok m \<and> list_all unique_keys (mTable m)"

text \<open>The keys stored in the table, bucket after bucket.\<close>

definition keys_of :: "('k, 'v) ConcurrentHashmap \<Rightarrow> 'k list" where
  "keys_of m = map Node_key (concat (mTable m))"

text \<open>The finite map a chain and a table denote.\<close>

definition chain_lookup :: "('k, 'v) NodeList \<Rightarrow> 'k \<Rightarrow> 'v option" where
  "chain_lookup chain = map_of (map (\<lambda>node. (Node_key node, Node_value node)) chain)"

definition contents :: "('k, 'v) ConcurrentHashmap \<Rightarrow> 'k \<Rightarrow> 'v option" where
  "contents m = chain_lookup (concat (mTable m))"

text \<open>The size counter equals the number of entries in the table.\<close>

definition size_ok :: "('k, 'v) ConcurrentHashmap \<Rightarrow> bool" where
  "size_ok m \<longleftrightarrow> unat (mSize m) = length (concat (mTable m))"

text \<open>
  The position of a key's bucket in \<open>mTable\<close> and of its stripe's mutex in
  \<open>mMutexes\<close>, as \<open>getIndex\<close> and \<open>getMutex\<close> compute them.
\<close>

definition bucket_of :: "('k, 'v) ConcurrentHashmap \<Rightarrow> 'k \<Rightarrow> nat" where
  "bucket_of m key = unat (mHasher m key mod mCapacity m)"

definition stripe_of :: "('k, 'v) ConcurrentHashmap \<Rightarrow> 'k \<Rightarrow> nat" where
  "stripe_of m key = unat ((mHasher m key mod mCapacity m) div mIndicesPerMutex m)"

text \<open>No mutex is held.\<close>

definition unlocked :: "('k, 'v) ConcurrentHashmap \<Rightarrow> bool" where
  "unlocked m \<longleftrightarrow> list_all Not (mMutexes m)"


section \<open>Stripe arithmetic\<close>

lemma ceil_div_bounds:
  fixes a b :: nat
  assumes "0 < b"
  shows "a \<le> b * ((a + b - 1) div b)" and "b * ((a + b - 1) div b) < a + b"
proof -
  let ?q = "(a + b - 1) div b"
  have "a + b - 1 < b * ?q + b"
    using assms dividend_less_times_div [of b "a + b - 1"] by simp
  with assms show "a \<le> b * ?q" by arith
  have "b * ?q \<le> a + b - 1" by simp
  with assms show "b * ?q < a + b" by arith
qed

lemma ipm_nat:
  fixes cap mc :: nat
  assumes "0 < mc"
  shows "(if cap mod mc \<noteq> 0 then (cap + mc) div mc else cap div mc) = (cap + mc - 1) div mc"
proof (cases "cap mod mc = 0")
  case True
  then obtain q where q: "cap = mc * q" by auto
  have "(mc * q + mc - 1) div mc = q"
    using assms by (intro div_nat_eqI) auto
  with True q assms show ?thesis by simp
next
  case False
  define q where "q = cap div mc"
  define r where "r = cap mod mc"
  have cap: "cap = mc * q + r" by (simp add: q_def r_def)
  have r: "0 < r" "r < mc" using False assms by (simp_all add: r_def)
  have "(mc * q + r + mc - 1) div mc = Suc q"
  proof (rule div_nat_eqI)
    show "mc * Suc q \<le> mc * q + r + mc - 1" using r by simp
    show "mc * q + r + mc - 1 < mc * Suc (Suc q)" using r by simp
  qed
  then have "(cap + mc - 1) div mc = Suc q" by (simp only: cap)
  then have "(cap + mc - 1) div mc = Suc (cap div mc)" by (simp only: q_def)
  with False assms show ?thesis by simp
qed

lemma ceil_nat:
  fixes a b :: nat
  assumes "0 < b"
  shows "\<lceil>real a / real b\<rceil> = int ((a + b - 1) div b)"
proof (rule ceiling_unique)
  let ?q = "(a + b - 1) div b"
  have "b * ?q < a + b" using ceil_div_bounds(2) [OF assms] .
  then have "real (b * ?q) < real (a + b)" by (simp only: of_nat_less_iff)
  then have "(real ?q - 1) * real b < real a" by (simp add: algebra_simps)
  then show "of_int (int ?q) - 1 < real a / real b"
    using assms by (simp add: pos_less_divide_eq)
  have "a \<le> b * ?q" using ceil_div_bounds(1) [OF assms] .
  then have "real a \<le> real (b * ?q)" by (simp only: of_nat_le_iff)
  then show "real a / real b \<le> of_int (int ?q)"
    using assms by (simp add: pos_divide_le_eq mult.commute)
qed

lemma stripe_bound:
  fixes cap mc idx :: nat
  assumes "0 < mc" "idx < cap"
  shows "idx div ((cap + mc - 1) div mc) < mc"
proof -
  let ?ipm = "(cap + mc - 1) div mc"
  have "cap \<le> mc * ?ipm" using ceil_div_bounds(1) [OF assms(1)] .
  with assms(2) have lt: "idx < mc * ?ipm" by simp
  then have "0 < ?ipm" by (cases "?ipm = 0") auto
  with lt show ?thesis by (simp add: div_less_iff_less_mult)
qed


lemma getIndicesPerMutex_unat:
  assumes "mutexCount \<noteq> 0" and "unat capacity + unat mutexCount < 2 ^ 64"
  shows "\<exists>w. getIndicesPerMutex capacity mutexCount = Inr w \<and>
    unat w = (unat capacity + unat mutexCount - 1) div unat mutexCount"
proof -
  have pos: "0 < unat mutexCount" using assms(1) by (simp add: unat_gt_0)
  have sum: "unat (capacity + mutexCount) = unat capacity + unat mutexCount"
    using assms(2) by (simp add: unat_add_lem [THEN iffD1])
  have md: "capacity mod mutexCount \<noteq> 0 \<longleftrightarrow> unat capacity mod unat mutexCount \<noteq> 0"
    by (simp add: unat_mod [symmetric] unat_eq_zero)
  show ?thesis
  proof (cases "capacity mod mutexCount \<noteq> 0")
    case True
    then have "getIndicesPerMutex capacity mutexCount = Inr ((capacity + mutexCount) div mutexCount)"
      using assms(1) by (simp add: getIndicesPerMutex_def)
    moreover have "unat ((capacity + mutexCount) div mutexCount) =
        (unat capacity + unat mutexCount - 1) div unat mutexCount"
      using ipm_nat [OF pos, of "unat capacity"] True md by (simp add: unat_div sum)
    ultimately show ?thesis by simp
  next
    case False
    then have "getIndicesPerMutex capacity mutexCount = Inr (capacity div mutexCount)"
      using assms(1) by (simp add: getIndicesPerMutex_def)
    moreover have "unat (capacity div mutexCount) =
        (unat capacity + unat mutexCount - 1) div unat mutexCount"
      using ipm_nat [OF pos, of "unat capacity"] False md by (simp add: unat_div)
    ultimately show ?thesis by simp
  qed
qed

lemma layout_no_wrap:
  assumes "layout_ok m"
  shows "unat (mCapacity m) + unat (mMutexCount m) < 2 ^ 64"
proof -
  have "unat (mMutexCount m) \<le> unat (mCapacity m)"
    using assms by (simp add: layout_ok_def word_le_nat_alt)
  moreover have "unat (mCapacity m) * 8 < 2 ^ 64"
    using assms by (simp add: layout_ok_def sizeof_NodeList_def)
  ultimately show ?thesis by arith
qed

lemma layout_stride:
  assumes "layout_ok m"
  shows "unat (mIndicesPerMutex m) =
    (unat (mCapacity m) + unat (mMutexCount m) - 1) div unat (mMutexCount m)"
proof -
  have "mMutexCount m \<noteq> 0" using assms by (simp add: layout_ok_def)
  from getIndicesPerMutex_unat [OF this layout_no_wrap [OF assms]]
  show ?thesis using assms by (auto simp: layout_ok_def)
qed

lemma layout_getIndex:
  assumes "layout_ok m"
  shows "getIndex m key = Inr (mHasher m key mod mCapacity m)"
    and "mHasher m key mod mCapacity m < mCapacity m"
proof -
  have nz: "mCapacity m \<noteq> 0" using assms by (simp add: layout_ok_def)
  then show "getIndex m key = Inr (mHasher m key mod mCapacity m)"
    by (simp add: getIndex_def)
  show "mHasher m key mod mCapacity m < mCapacity m"
    using nz by (simp add: word_mod_less_divisor word_neq_0_conv [symmetric] word_gt_0)
qed

lemma layout_getMutex:
  assumes "layout_ok m" and "index < mCapacity m"
  shows "mIndicesPerMutex m \<noteq> 0"
    and "index div mIndicesPerMutex m < mMutexCount m"
    and "getMutex m index = Inr (unat (index div mIndicesPerMutex m))"
    and "unat (index div mIndicesPerMutex m) < length (mMutexes m)"
proof -
  let ?cap = "unat (mCapacity m)" and ?mc = "unat (mMutexCount m)"
  have mc: "0 < ?mc" using assms(1) by (simp add: layout_ok_def unat_gt_0)
  have idx: "unat index < ?cap" using assms(2) by (simp add: word_less_nat_alt)
  have stride: "unat (mIndicesPerMutex m) = (?cap + ?mc - 1) div ?mc"
    by (rule layout_stride [OF assms(1)])
  have bound: "unat index div unat (mIndicesPerMutex m) < ?mc"
    unfolding stride by (rule stripe_bound [OF mc idx])
  have "?cap \<le> ?mc * unat (mIndicesPerMutex m)"
    unfolding stride by (rule ceil_div_bounds(1) [OF mc])
  with idx have "unat (mIndicesPerMutex m) \<noteq> 0" by (cases "unat (mIndicesPerMutex m) = 0") auto
  then show nz: "mIndicesPerMutex m \<noteq> 0" by (simp add: unat_eq_zero)
  show lt: "index div mIndicesPerMutex m < mMutexCount m"
    using bound by (simp add: word_less_nat_alt unat_div)
  then show len: "unat (index div mIndicesPerMutex m) < length (mMutexes m)"
    using assms(1) by (simp add: layout_ok_def word_less_nat_alt)
  show "getMutex m index = Inr (unat (index div mIndicesPerMutex m))"
    using nz len by (simp add: getMutex_def Let_def)
qed

lemma new_Inr:
  assumes "ConcurrentHashmap_new capacity concurrencyLevel hasher = Inr m"
  shows "capacity \<noteq> 0" and "concurrencyLevel \<noteq> 0"
    and "unat capacity * sizeof_NodeList < 2 ^ 64"
    and "m = \<lparr>mCapacity = capacity, mMutexCount = min concurrencyLevel capacity,
              mIndicesPerMutex = mIndicesPerMutex m, mHasher = hasher, mSize = 0,
              mTable = replicate (unat capacity) [],
              mMutexes = replicate (unat (min concurrencyLevel capacity)) False\<rparr>"
    and "getIndicesPerMutex capacity (min concurrencyLevel capacity) = Inr (mIndicesPerMutex m)"
  using assms
  by (auto simp: ConcurrentHashmap_new_def getMutexCount_def new_array_def
      split: sum.splits if_splits)

lemma new_layout_ok:
  assumes "ConcurrentHashmap_new capacity concurrencyLevel hasher = Inr m"
  shows "layout_ok m"
proof -
  note f = new_Inr [OF assms]
  have "min concurrencyLevel capacity \<noteq> 0" using f(1,2) by (simp add: min_def)
  moreover have "min concurrencyLevel capacity \<le> capacity" by simp
  ultimately show ?thesis
    using f(1,3,5) by (subst f(4)) (simp add: layout_ok_def)
qed

lemma new_succeeds:
  assumes "capacity \<noteq> 0" and "concurrencyLevel \<noteq> 0"
    and "unat capacity * sizeof_NodeList < 2 ^ 64"
  shows "\<exists>m. ConcurrentHashmap_new capacity concurrencyLevel hasher = Inr m"
proof -
  have "min concurrencyLevel capacity \<noteq> 0" using assms(1,2) by (simp add: min_def)
  then have "\<exists>w. getIndicesPerMutex capacity (min concurrencyLevel capacity) = Inr w"
    by (cases "capacity mod min concurrencyLevel capacity = 0") (auto simp: getIndicesPerMutex_def)
  moreover have "unat (min concurrencyLevel capacity) < 2 ^ 64"
    using unsigned_less [of "min concurrencyLevel capacity"] by simp
  ultimately show ?thesis
    using assms
    by (auto simp: ConcurrentHashmap_new_def getMutexCount_def new_array_def sizeof_mutex_def)
qed

section \<open>Chains\<close>

lemma chain_lookup_Nil [simp]: "chain_lookup [] k = None"
  by (simp add: chain_lookup_def)

lemma chain_lookup_Cons [simp]:
  "chain_lookup (node # rest) k =
     (if Node_key node = k then Some (Node_value node) else chain_lookup rest k)"
  by (simp add: chain_lookup_def)

lemma chain_lookup_None_iff: "chain_lookup chain k = None \<longleftrightarrow> k \<notin> Node_key ` set chain"
  by (induction chain) auto

lemma chain_lookup_append:
  "chain_lookup (xs @ ys) k =
     (case chain_lookup xs k of None \<Rightarrow> chain_lookup ys k | Some v \<Rightarrow> Some v)"
  by (induction xs) auto

lemma find_None_iff: "NodeList_find chain k = None \<longleftrightarrow> k \<notin> Node_key ` set chain"
  by (induction chain) (auto split: option.splits)

lemma find_None_lookup: "NodeList_find chain k = None \<longleftrightarrow> chain_lookup chain k = None"
  by (simp add: find_None_iff chain_lookup_None_iff)

lemma find_Some:
  "NodeList_find chain k = Some i \<Longrightarrow>
     i < length chain \<and> Node_key (chain ! i) = k \<and>
     chain_lookup chain k = Some (Node_value (chain ! i))"
  by (induction chain arbitrary: i) (auto split: if_splits option.splits)

lemma find_Some_overwrite:
  "NodeList_find chain k = Some i \<Longrightarrow>
     chain_lookup (chain[i := (chain ! i)\<lparr>Node_value := v\<rparr>]) = (chain_lookup chain)(k \<mapsto> v)"
  by (induction chain arbitrary: i) (auto split: if_splits option.splits simp: fun_eq_iff)

lemma overwrite_keys:
  "map Node_key (chain[i := (chain ! i)\<lparr>Node_value := v\<rparr>]) = map Node_key chain"
  by (induction chain arbitrary: i) (auto split: nat.splits)

lemma insert_lookup:
  "chain_lookup (fst (NodeList_insert chain k v)) = (chain_lookup chain)(k \<mapsto> v)"
  by (auto simp: NodeList_insert_def find_Some_overwrite fun_eq_iff split: option.splits)

lemma insert_inserted: "snd (NodeList_insert chain k v) \<longleftrightarrow> k \<notin> Node_key ` set chain"
  by (auto simp: NodeList_insert_def find_None_iff [symmetric] split: option.splits)

lemma insert_keys:
  "map Node_key (fst (NodeList_insert chain k v)) =
     (if k \<in> Node_key ` set chain then map Node_key chain else k # map Node_key chain)"
  by (auto simp: NodeList_insert_def overwrite_keys find_None_iff [symmetric] split: option.splits)

lemma insert_length:
  "length (fst (NodeList_insert chain k v)) =
     (if k \<in> Node_key ` set chain then length chain else Suc (length chain))"
  using arg_cong [OF insert_keys, of length chain k v] by (simp split: if_splits)

lemma insert_unique: "unique_keys chain \<Longrightarrow> unique_keys (fst (NodeList_insert chain k v))"
  by (simp add: unique_keys_def insert_keys)

lemma erase_scan_eq: "erase_scan chain k = NodeList_erase chain k"
  by (cases chain) auto

lemma erase_keys: "map Node_key (fst (NodeList_erase chain k)) = remove1 k (map Node_key chain)"
  by (induction chain) (auto simp: erase_scan_eq split: prod.splits)

lemma erase_erased: "snd (NodeList_erase chain k) \<longleftrightarrow> k \<in> Node_key ` set chain"
  by (induction chain) (auto simp: erase_scan_eq split: prod.splits)

lemma erase_absent: "k \<notin> Node_key ` set chain \<Longrightarrow> NodeList_erase chain k = (chain, False)"
  by (induction chain) (auto simp: erase_scan_eq split: prod.splits)

lemma erase_length:
  "length (fst (NodeList_erase chain k)) =
     (if k \<in> Node_key ` set chain then length chain - 1 else length chain)"
  using arg_cong [OF erase_keys, of length chain k] by (auto simp: length_remove1)

lemma erase_unique: "unique_keys chain \<Longrightarrow> unique_keys (fst (NodeList_erase chain k))"
  by (simp add: unique_keys_def erase_keys)

lemma erase_lookup:
  "unique_keys chain \<Longrightarrow>
     chain_lookup (fst (NodeList_erase chain k)) = (chain_lookup chain)(k := None)"
proof (induction chain)
  case Nil
  then show ?case by (simp add: fun_eq_iff)
next
  case (Cons node rest)
  then have "k \<notin> Node_key ` set rest" if "Node_key node = k"
    using that by (auto simp: unique_keys_def)
  then have "chain_lookup rest k = None" if "Node_key node = k"
    using that by (simp add: chain_lookup_None_iff)
  with Cons show ?case
    by (auto simp: erase_scan_eq unique_keys_def fun_eq_iff split: prod.splits)
qed

section \<open>Buckets\<close>

lemma lookup_concat_None:
  "(\<forall>chain \<in> set table. k \<notin> Node_key ` set chain) \<Longrightarrow> chain_lookup (concat table) k = None"
  by (auto simp: chain_lookup_None_iff)

lemma lookup_concat_bucket:
  assumes "i < length table"
    and "\<forall>j < length table. j \<noteq> i \<longrightarrow> k \<notin> Node_key ` set (table ! j)"
  shows "chain_lookup (concat table) k = chain_lookup (table ! i) k"
  using assms
proof (induction table arbitrary: i)
  case Nil
  then show ?case by simp
next
  case (Cons chain table)
  show ?case
  proof (cases i)
    case 0
    have "\<forall>c \<in> set table. k \<notin> Node_key ` set c"
    proof
      fix c assume "c \<in> set table"
      then obtain j where "j < length table" "table ! j = c" by (auto simp: in_set_conv_nth)
      with Cons.prems(2) [rule_format, of "Suc j"] 0 show "k \<notin> Node_key ` set c" by simp
    qed
    then have "chain_lookup (concat table) k = None" by (rule lookup_concat_None)
    with 0 show ?thesis by (simp add: chain_lookup_append split: option.splits)
  next
    case (Suc i')
    have "k \<notin> Node_key ` set chain"
      using Cons.prems(2) [rule_format, of 0] Suc by simp
    then have none: "chain_lookup chain k = None" by (simp add: chain_lookup_None_iff)
    have "chain_lookup (concat table) k = chain_lookup (table ! i') k"
    proof (rule Cons.IH)
      show "i' < length table" using Cons.prems(1) Suc by simp
      show "\<forall>j<length table. j \<noteq> i' \<longrightarrow> k \<notin> Node_key ` set (table ! j)"
        using Cons.prems(2) [rule_format, of "Suc j" for j] Suc by auto
    qed
    with none Suc show ?thesis by (simp add: chain_lookup_append)
  qed
qed

text \<open>The bucket of a key, as a position in the table.\<close>

lemma bucket_in_range:
  assumes "layout_ok m"
  shows "unat (mHasher m key mod mCapacity m) < length (mTable m)"
  using layout_getIndex(2) [OF assms, of key] assms
  by (simp add: layout_ok_def word_less_nat_alt)

lemma bucket_ok_D:
  assumes "layout_ok m" and "bucket_ok m" and "j < length (mTable m)"
    and "node \<in> set (mTable m ! j)"
  shows "unat (mHasher m (Node_key node) mod mCapacity m) = j"
proof -
  have "getIndex m (Node_key node) = Inr (word_of_nat j)"
    using assms(2-4) by (simp add: bucket_ok_def)
  then have eq: "mHasher m (Node_key node) mod mCapacity m = word_of_nat j"
    using layout_getIndex(1) [OF assms(1), of "Node_key node"] by simp
  have "unat (mCapacity m) < 2 ^ 64"
    using unsigned_less [of "mCapacity m", where 'a = nat] by simp
  then have "j < 2 ^ 64"
    using assms(1,3) by (simp add: layout_ok_def)
  then show ?thesis unfolding eq by (simp add: unat_of_nat)
qed

lemma contents_bucket:
  assumes "layout_ok m" and "bucket_ok m"
  shows "contents m key = chain_lookup (mTable m ! unat (mHasher m key mod mCapacity m)) key"
  unfolding contents_def
proof (rule lookup_concat_bucket [OF bucket_in_range [OF assms(1)]], intro allI impI)
  fix j assume j: "j < length (mTable m)" "j \<noteq> unat (mHasher m key mod mCapacity m)"
  show "key \<notin> Node_key ` set (mTable m ! j)"
  proof
    assume "key \<in> Node_key ` set (mTable m ! j)"
    then obtain node where "node \<in> set (mTable m ! j)" "Node_key node = key" by auto
    with bucket_ok_D [OF assms j(1)] j(2) show False by auto
  qed
qed

lemma contents_keys: "contents m key = None \<longleftrightarrow> key \<notin> set (keys_of m)"
  by (simp add: contents_def keys_of_def chain_lookup_None_iff)

section \<open>What the operations return\<close>

lemma lock_unlock: "\<not> ms ! i \<Longrightarrow> ms[i := False] = ms"
  using list_update_id [of ms i] by simp

lemma acquire_free:
  assumes "layout_ok m" and "stripe_free m key"
  shows "acquire m key =
      Inr (mHasher m key mod mCapacity m, stripe_of m key,
           m\<lparr>mMutexes := (mMutexes m)[stripe_of m key := True]\<rparr>)"
    and "\<not> mMutexes m ! stripe_of m key"
proof -
  let ?index = "mHasher m key mod mCapacity m"
  note gi = layout_getIndex [OF assms(1), of key]
  note gm = layout_getMutex [OF assms(1) gi(2)]
  have acq: "acquire m key = (case mutex_lock (stripe_of m key) m of Inl e \<Rightarrow> Inl e
      | Inr m1 \<Rightarrow> Inr (?index, stripe_of m key, m1))"
    unfolding stripe_of_def by (simp add: acquire_def gi(1) gm(3))
  show free: "\<not> mMutexes m ! stripe_of m key"
    using assms(2) unfolding stripe_free_def acq by (auto simp: mutex_lock_def split: if_splits)
  then show "acquire m key =
      Inr (?index, stripe_of m key, m\<lparr>mMutexes := (mMutexes m)[stripe_of m key := True]\<rparr>)"
    unfolding acq by (simp add: mutex_lock_def)
qed

lemma acquire_blocked: "\<not> stripe_free m key \<Longrightarrow> acquire m key = Inl Blocked"
  by (simp add: stripe_free_def)

lemma table_at_bucket:
  assumes "layout_ok m"
  shows "table_at (m\<lparr>mMutexes := ms\<rparr>) (mHasher m key mod mCapacity m) =
    Inr (mTable m ! bucket_of m key)"
  using bucket_in_range [OF assms, of key] by (simp add: table_at_def bucket_of_def)

lemma find_result:
  assumes "layout_ok m" and "stripe_free m key"
  shows "ConcurrentHashmap_find key m =
    (Inr (NodeList_find (mTable m ! bucket_of m key) key \<noteq> None), m)"
  using acquire_free [OF assms]
  by (simp add: ConcurrentHashmap_find_def table_at_bucket [OF assms(1)] mutex_unlock_def lock_unlock)

lemma getCopy_result:
  assumes "layout_ok m" and "stripe_free m key"
  shows "ConcurrentHashmap_getCopy key m =
    (case NodeList_find (mTable m ! bucket_of m key) key of
       Some i \<Rightarrow> Inr (Node_value (mTable m ! bucket_of m key ! i))
     | None \<Rightarrow> Inl (Exception KeyNotFound), m)"
  using acquire_free [OF assms]
  by (simp add: ConcurrentHashmap_getCopy_def table_at_bucket [OF assms(1)] mutex_unlock_def
      lock_unlock split: option.splits)

lemma get_result:
  assumes "layout_ok m" and "stripe_free m key"
  shows "ConcurrentHashmap_get key m =
    (case NodeList_find (mTable m ! bucket_of m key) key of
       Some i \<Rightarrow> (Inr (Node_value (mTable m ! bucket_of m key ! i), stripe_of m key),
                  m\<lparr>mMutexes := (mMutexes m)[stripe_of m key := True]\<rparr>)
     | None \<Rightarrow> (Inl (Exception KeyNotFound), m))"
  using acquire_free [OF assms]
  by (simp add: ConcurrentHashmap_get_def table_at_bucket [OF assms(1)] mutex_unlock_def
      lock_unlock split: option.splits)

lemma insert_result:
  assumes "layout_ok m" and "stripe_free m key"
  shows "ConcurrentHashmap_insert key v m =
    (Inr (), m\<lparr>mTable := (mTable m)[bucket_of m key :=
                  fst (NodeList_insert (mTable m ! bucket_of m key) key v)],
               mSize := (if snd (NodeList_insert (mTable m ! bucket_of m key) key v)
                         then mSize m + 1 else mSize m)\<rparr>)"
  using acquire_free [OF assms]
  by (simp add: ConcurrentHashmap_insert_def table_at_bucket [OF assms(1)] mutex_unlock_def
      lock_unlock bucket_of_def Let_def split: prod.splits)

lemma erase_result:
  assumes "layout_ok m" and "stripe_free m key"
  shows "ConcurrentHashmap_erase key m =
    (Inr (), m\<lparr>mTable := (mTable m)[bucket_of m key :=
                  fst (NodeList_erase (mTable m ! bucket_of m key) key)],
               mSize := (if snd (NodeList_erase (mTable m ! bucket_of m key) key)
                         then mSize m - 1 else mSize m)\<rparr>)"
  using acquire_free [OF assms]
  by (simp add: ConcurrentHashmap_erase_def table_at_bucket [OF assms(1)] mutex_unlock_def
      lock_unlock bucket_of_def Let_def split: prod.splits)

lemma blocked_results:
  assumes "\<not> stripe_free m key"
  shows "ConcurrentHashmap_find key m = (Inl Blocked, m)"
    and "ConcurrentHashmap_getCopy key m = (Inl Blocked, m)"
    and "ConcurrentHashmap_get key m = (Inl Blocked, m)"
    and "ConcurrentHashmap_insert key v m = (Inl Blocked, m)"
    and "ConcurrentHashmap_erase key m = (Inl Blocked, m)"
  using acquire_blocked [OF assms]
  by (simp_all add: ConcurrentHashmap_find_def ConcurrentHashmap_getCopy_def
      ConcurrentHashmap_get_def ConcurrentHashmap_insert_def ConcurrentHashmap_erase_def)

section \<open>The invariant is preserved\<close>

lemma bucket_ok_getIndex:
  "bucket_ok m \<Longrightarrow> i < length (mTable m) \<Longrightarrow> node \<in> set (mTable m ! i) \<Longrightarrow>
     getIndex m (Node_key node) = Inr (word_of_nat i)"
  by (simp add: bucket_ok_def)

lemma inv_update_bucket:
  assumes inv: "ConcurrentHashmap_inv m"
    and uniq: "unique_keys chain'"
    and keys: "Node_key ` set chain' \<subseteq> insert key (Node_key ` set (mTable m ! bucket_of m key))"
  shows "ConcurrentHashmap_inv (m\<lparr>mTable := (mTable m)[bucket_of m key := chain'], mSize := s\<rparr>)"
proof -
  let ?b = "bucket_of m key"
  let ?m' = "m\<lparr>mTable := (mTable m)[?b := chain'], mSize := s\<rparr>"
  have lay: "layout_ok m" and bok: "bucket_ok m" and all: "list_all unique_keys (mTable m)"
    using inv by (simp_all add: ConcurrentHashmap_inv_def)
  have b: "?b < length (mTable m)"
    using bucket_in_range [OF lay, of key] by (simp add: bucket_of_def)
  have "layout_ok ?m'" using lay by (simp add: layout_ok_def)
  moreover have "list_all unique_keys ((mTable m)[?b := chain'])"
    using all uniq set_update_subset_insert [of "mTable m" ?b chain']
    by (auto simp: list_all_iff)
  moreover have "bucket_ok ?m'"
    unfolding bucket_ok_def
  proof (intro ballI)
    fix i node
    assume i: "i \<in> {0..<length (mTable ?m')}" and node: "node \<in> set (mTable ?m' ! i)"
    have gi: "getIndex ?m' k = getIndex m k" for k
      by (simp add: getIndex_def)
    show "getIndex ?m' (Node_key node) = Inr (word_of_nat i)"
    proof (cases "i = ?b")
      case True
      with node b have "node \<in> set chain'" by simp
      with keys have "Node_key node = key \<or> Node_key node \<in> Node_key ` set (mTable m ! ?b)"
        by auto
      then show ?thesis
      proof
        assume "Node_key node = key"
        then show ?thesis
          unfolding gi using layout_getIndex(1) [OF lay, of key] True
          by (simp add: bucket_of_def)
      next
        assume "Node_key node \<in> Node_key ` set (mTable m ! ?b)"
        then obtain n where "n \<in> set (mTable m ! ?b)" "Node_key n = Node_key node" by auto
        with bucket_ok_getIndex [OF bok b, of n] True show ?thesis unfolding gi by simp
      qed
    next
      case False
      with node have "node \<in> set (mTable m ! i)" by simp
      with bucket_ok_getIndex [OF bok, of i node] i show ?thesis unfolding gi by simp
    qed
  qed
  ultimately show ?thesis using all by (simp add: ConcurrentHashmap_inv_def)
qed

lemma contents_update_bucket:
  assumes inv: "ConcurrentHashmap_inv m"
    and inv': "ConcurrentHashmap_inv (m\<lparr>mTable := (mTable m)[bucket_of m key := chain'], mSize := s\<rparr>)"
  shows "contents (m\<lparr>mTable := (mTable m)[bucket_of m key := chain'], mSize := s\<rparr>) k =
    (if bucket_of m k = bucket_of m key then chain_lookup chain' k else contents m k)"
proof -
  let ?m' = "m\<lparr>mTable := (mTable m)[bucket_of m key := chain'], mSize := s\<rparr>"
  have lay: "layout_ok m" and bok: "bucket_ok m"
    using inv by (simp_all add: ConcurrentHashmap_inv_def)
  have lay': "layout_ok ?m'" and bok': "bucket_ok ?m'"
    using inv' by (simp_all add: ConcurrentHashmap_inv_def)
  have b: "bucket_of m key < length (mTable m)"
    using bucket_in_range [OF lay, of key] by (simp add: bucket_of_def)
  have "contents ?m' k = chain_lookup (mTable ?m' ! bucket_of m k) k"
    using contents_bucket [OF lay' bok', of k] by (simp add: bucket_of_def)
  moreover have "contents m k = chain_lookup (mTable m ! bucket_of m k) k"
    using contents_bucket [OF lay bok, of k] by (simp add: bucket_of_def)
  ultimately show ?thesis using b by simp
qed

lemma contents_at_bucket:
  assumes "ConcurrentHashmap_inv m"
  shows "contents m key = chain_lookup (mTable m ! bucket_of m key) key"
  using contents_bucket [of m key] assms by (simp add: ConcurrentHashmap_inv_def bucket_of_def)

lemma bucket_unique:
  assumes "ConcurrentHashmap_inv m"
  shows "unique_keys (mTable m ! bucket_of m key)"
proof -
  have lay: "layout_ok m" and all: "list_all unique_keys (mTable m)"
    using assms by (simp_all add: ConcurrentHashmap_inv_def)
  have "bucket_of m key < length (mTable m)"
    using bucket_in_range [OF lay, of key] by (simp add: bucket_of_def)
  with all show ?thesis by (simp add: list_all_length)
qed

lemma insert_inv_contents:
  assumes inv: "ConcurrentHashmap_inv m" and free: "stripe_free m key"
  shows "ConcurrentHashmap_inv (snd (ConcurrentHashmap_insert key v m))"
    and "contents (snd (ConcurrentHashmap_insert key v m)) = (contents m)(key \<mapsto> v)"
proof -
  let ?chain = "mTable m ! bucket_of m key"
  let ?ins = "NodeList_insert ?chain key v"
  let ?s = "if snd ?ins then mSize m + 1 else mSize m"
  let ?m' = "m\<lparr>mTable := (mTable m)[bucket_of m key := fst ?ins], mSize := ?s\<rparr>"
  have lay: "layout_ok m" using inv by (simp add: ConcurrentHashmap_inv_def)
  have res: "snd (ConcurrentHashmap_insert key v m) = ?m'"
    by (simp add: insert_result [OF lay free])
  have "Node_key ` set (fst ?ins) = set (map Node_key (fst ?ins))" by simp
  also have "\<dots> \<subseteq> insert key (Node_key ` set ?chain)"
    unfolding insert_keys by auto
  finally have inv': "ConcurrentHashmap_inv ?m'"
    by (intro inv_update_bucket [OF inv] insert_unique bucket_unique [OF inv])
  then show "ConcurrentHashmap_inv (snd (ConcurrentHashmap_insert key v m))"
    by (simp only: res)
  have "contents ?m' k = ((contents m)(key \<mapsto> v)) k" for k
    unfolding contents_update_bucket [OF inv inv'] insert_lookup
    using contents_at_bucket [OF inv, of k] by auto
  then show "contents (snd (ConcurrentHashmap_insert key v m)) = (contents m)(key \<mapsto> v)"
    unfolding res by (rule ext)
qed

lemma erase_inv_contents:
  assumes inv: "ConcurrentHashmap_inv m" and free: "stripe_free m key"
  shows "ConcurrentHashmap_inv (snd (ConcurrentHashmap_erase key m))"
    and "contents (snd (ConcurrentHashmap_erase key m)) = (contents m)(key := None)"
proof -
  let ?chain = "mTable m ! bucket_of m key"
  let ?era = "NodeList_erase ?chain key"
  let ?s = "if snd ?era then mSize m - 1 else mSize m"
  let ?m' = "m\<lparr>mTable := (mTable m)[bucket_of m key := fst ?era], mSize := ?s\<rparr>"
  have lay: "layout_ok m" using inv by (simp add: ConcurrentHashmap_inv_def)
  have res: "snd (ConcurrentHashmap_erase key m) = ?m'"
    by (simp add: erase_result [OF lay free])
  have "Node_key ` set (fst ?era) = set (map Node_key (fst ?era))" by simp
  also have "\<dots> \<subseteq> insert key (Node_key ` set ?chain)"
    unfolding erase_keys using set_remove1_subset [of key "map Node_key ?chain"] by auto
  finally have inv': "ConcurrentHashmap_inv ?m'"
    by (intro inv_update_bucket [OF inv] erase_unique bucket_unique [OF inv])
  then show "ConcurrentHashmap_inv (snd (ConcurrentHashmap_erase key m))"
    by (simp only: res)
  have "contents ?m' k = ((contents m)(key := None)) k" for k
    unfolding contents_update_bucket [OF inv inv'] erase_lookup [OF bucket_unique [OF inv]]
    using contents_at_bucket [OF inv, of k] by auto
  then show "contents (snd (ConcurrentHashmap_erase key m)) = (contents m)(key := None)"
    unfolding res by (rule ext)
qed

lemma inv_mutexes:
  assumes "ConcurrentHashmap_inv m" and "length ms = length (mMutexes m)"
  shows "ConcurrentHashmap_inv (m\<lparr>mMutexes := ms\<rparr>)"
  using assms
  by (auto simp: ConcurrentHashmap_inv_def layout_ok_def bucket_ok_def getIndex_def)

lemma call_effect_inv:
  assumes inv: "ConcurrentHashmap_inv m"
  shows "ConcurrentHashmap_inv (call_effect c m)"
proof -
  have lay: "layout_ok m" using inv by (simp add: ConcurrentHashmap_inv_def)
  have locked: "ConcurrentHashmap_inv (m\<lparr>mMutexes := (mMutexes m)[i := b]\<rparr>)" for i b
    by (rule inv_mutexes [OF inv]) simp
  show ?thesis
  proof (cases c)
    case (Find key)
    then show ?thesis
      using inv find_result [OF lay, of key] blocked_results(1) [of m key]
      by (cases "stripe_free m key") simp_all
  next
    case (GetCopy key)
    then show ?thesis
      using inv getCopy_result [OF lay, of key] blocked_results(2) [of m key]
      by (cases "stripe_free m key") simp_all
  next
    case (Get key)
    then show ?thesis
      using inv locked get_result [OF lay, of key] blocked_results(3) [of m key]
      by (cases "stripe_free m key") (simp_all split: option.splits)
  next
    case (Insert key v)
    then show ?thesis
      using inv insert_inv_contents(1) [OF inv, of key v] blocked_results(4) [of m key v]
      by (cases "stripe_free m key") simp_all
  next
    case (Erase key)
    then show ?thesis
      using inv erase_inv_contents(1) [OF inv, of key] blocked_results(5) [of m key]
      by (cases "stripe_free m key") simp_all
  next
    case (Unlock mutex)
    then show ?thesis
      using locked by (simp add: LockedValue_unlock_def mutex_unlock_def)
  qed
qed

lemma run_inv: "ConcurrentHashmap_inv m \<Longrightarrow> ConcurrentHashmap_inv (run calls m)"
  unfolding run_def by (induction calls arbitrary: m) (simp_all add: call_effect_inv)

lemma acquire_Inr:
  "acquire m key = Inr (index, mutex, m1) \<Longrightarrow> m1 = m\<lparr>mMutexes := (mMutexes m)[mutex := True]\<rparr>"
  by (auto simp: acquire_def mutex_lock_def split: sum.splits if_splits)

lemma call_effect_config:
  "mCapacity (call_effect c m) = mCapacity m \<and>
   mMutexCount (call_effect c m) = mMutexCount m \<and>
   mIndicesPerMutex (call_effect c m) = mIndicesPerMutex m \<and>
   mHasher (call_effect c m) = mHasher m"
proof (cases c)
  case (Find key)
  then show ?thesis
    by (auto simp: ConcurrentHashmap_find_def mutex_unlock_def
        split: sum.splits prod.splits dest!: acquire_Inr)
next
  case (GetCopy key)
  then show ?thesis
    by (auto simp: ConcurrentHashmap_getCopy_def mutex_unlock_def
        split: sum.splits prod.splits option.splits dest!: acquire_Inr)
next
  case (Get key)
  then show ?thesis
    by (auto simp: ConcurrentHashmap_get_def mutex_unlock_def
        split: sum.splits prod.splits option.splits dest!: acquire_Inr)
next
  case (Insert key v)
  then show ?thesis
    by (auto simp: ConcurrentHashmap_insert_def mutex_unlock_def Let_def
        split: sum.splits prod.splits dest!: acquire_Inr)
next
  case (Erase key)
  then show ?thesis
    by (auto simp: ConcurrentHashmap_erase_def mutex_unlock_def Let_def
        split: sum.splits prod.splits dest!: acquire_Inr)
next
  case (Unlock mutex)
  then show ?thesis by (simp add: LockedValue_unlock_def mutex_unlock_def)
qed

lemma run_config:
  "mCapacity (run calls m) = mCapacity m \<and>
   mMutexCount (run calls m) = mMutexCount m \<and>
   mIndicesPerMutex (run calls m) = mIndicesPerMutex m \<and>
   mHasher (run calls m) = mHasher m"
  unfolding run_def by (induction calls arbitrary: m) (simp_all add: call_effect_config)

lemma new_inv:
  assumes "ConcurrentHashmap_new capacity concurrencyLevel hasher = Inr m"
  shows "ConcurrentHashmap_inv m" and "unlocked m" and "size_ok m" and "contents m = Map.empty"
proof -
  note f = new_Inr [OF assms]
  have t: "mTable m = replicate (unat capacity) []"
    and s: "mSize m = 0"
    and ms: "mMutexes m = replicate (unat (min concurrencyLevel capacity)) False"
    by (subst f(4), simp)+
  show "ConcurrentHashmap_inv m"
    using new_layout_ok [OF assms]
    by (simp add: ConcurrentHashmap_inv_def bucket_ok_def t list_all_iff unique_keys_def)
  show "unlocked m" by (simp add: unlocked_def ms list_all_iff)
  show "size_ok m" by (simp add: size_ok_def t s)
  show "contents m = Map.empty" by (simp add: contents_def t fun_eq_iff)
qed

lemma unlocked_free:
  assumes "layout_ok m" and "unlocked m"
  shows "stripe_free m key"
proof -
  note gi = layout_getIndex [OF assms(1), of key]
  note gm = layout_getMutex [OF assms(1) gi(2)]
  have "\<not> mMutexes m ! unat (mHasher m key mod mCapacity m div mIndicesPerMutex m)"
    using assms(2) gm(4) by (simp add: unlocked_def list_all_length)
  then show ?thesis
    by (simp add: stripe_free_def acquire_def gi(1) gm(3) mutex_lock_def)
qed

lemma length_concat_update:
  "i < length xss \<Longrightarrow>
     length (concat (xss[i := ys])) + length (xss ! i) = length (concat xss) + length ys"
  by (induction xss arbitrary: i) (auto split: nat.splits)

lemma distinct_concat_buckets:
  assumes "\<forall>i<length xss. distinct (xss ! i)"
    and "\<forall>i<length xss. \<forall>j<length xss. i \<noteq> j \<longrightarrow> set (xss ! i) \<inter> set (xss ! j) = {}"
  shows "distinct (concat xss)"
  using assms
proof (induction xss)
  case Nil
  then show ?case by simp
next
  case (Cons xs xss)
  have d: "distinct xs" using Cons.prems(1) [rule_format, of 0] by simp
  have rest: "distinct (concat xss)"
  proof (rule Cons.IH)
    show "\<forall>i<length xss. distinct (xss ! i)"
      using Cons.prems(1) [rule_format, of "Suc i" for i] by auto
    show "\<forall>i<length xss. \<forall>j<length xss. i \<noteq> j \<longrightarrow> set (xss ! i) \<inter> set (xss ! j) = {}"
      using Cons.prems(2) [rule_format, of "Suc i" "Suc j" for i j] by auto
  qed
  have "set xs \<inter> set ys = {}" if "ys \<in> set xss" for ys
  proof -
    from that obtain j where "j < length xss" "xss ! j = ys" by (auto simp: in_set_conv_nth)
    with Cons.prems(2) [rule_format, of 0 "Suc j"] show ?thesis by simp
  qed
  with d rest show ?case by auto
qed

lemma inv_distinct_keys:
  assumes "ConcurrentHashmap_inv m"
  shows "distinct (keys_of m)"
proof -
  have lay: "layout_ok m" and bok: "bucket_ok m" and all: "list_all unique_keys (mTable m)"
    using assms by (simp_all add: ConcurrentHashmap_inv_def)
  let ?kss = "map (map Node_key) (mTable m)"
  have "distinct (concat ?kss)"
  proof (rule distinct_concat_buckets)
    show "\<forall>i<length ?kss. distinct (?kss ! i)"
      using all by (simp add: list_all_length unique_keys_def)
    show "\<forall>i<length ?kss. \<forall>j<length ?kss. i \<noteq> j \<longrightarrow> set (?kss ! i) \<inter> set (?kss ! j) = {}"
    proof (intro allI impI)
      fix i j assume ij: "i < length ?kss" "j < length ?kss" "i \<noteq> j"
      show "set (?kss ! i) \<inter> set (?kss ! j) = {}"
      proof (rule ccontr)
        assume "set (?kss ! i) \<inter> set (?kss ! j) \<noteq> {}"
        then obtain k where "k \<in> set (?kss ! i)" "k \<in> set (?kss ! j)" by auto
        then obtain n n' where "n \<in> set (mTable m ! i)" "Node_key n = k"
          "n' \<in> set (mTable m ! j)" "Node_key n' = k"
          using ij by auto
        with bucket_ok_D [OF lay bok, of i n] bucket_ok_D [OF lay bok, of j n'] ij
        show False by simp
      qed
    qed
  qed
  then show ?thesis by (simp add: keys_of_def map_concat)
qed

section \<open>Operations in terms of the denoted map\<close>

lemma find_contents:
  assumes "ConcurrentHashmap_inv m" and "stripe_free m key"
  shows "ConcurrentHashmap_find key m = (Inr (contents m key \<noteq> None), m)"
proof -
  have lay: "layout_ok m" using assms(1) by (simp add: ConcurrentHashmap_inv_def)
  show ?thesis
    unfolding find_result [OF lay assms(2)] contents_at_bucket [OF assms(1)]
    by (simp add: find_None_lookup)
qed

lemma getCopy_contents:
  assumes "ConcurrentHashmap_inv m" and "stripe_free m key"
  shows "ConcurrentHashmap_getCopy key m =
    (case contents m key of Some v \<Rightarrow> Inr v | None \<Rightarrow> Inl (Exception KeyNotFound), m)"
proof -
  have lay: "layout_ok m" using assms(1) by (simp add: ConcurrentHashmap_inv_def)
  show ?thesis
    unfolding getCopy_result [OF lay assms(2)] contents_at_bucket [OF assms(1)]
    by (auto split: option.splits dest: find_Some simp: find_None_lookup)
qed

lemma get_contents:
  assumes "ConcurrentHashmap_inv m" and "stripe_free m key"
  shows "ConcurrentHashmap_get key m =
    (case contents m key of
       Some v \<Rightarrow> (Inr (v, stripe_of m key), m\<lparr>mMutexes := (mMutexes m)[stripe_of m key := True]\<rparr>)
     | None \<Rightarrow> (Inl (Exception KeyNotFound), m))"
proof -
  have lay: "layout_ok m" using assms(1) by (simp add: ConcurrentHashmap_inv_def)
  show ?thesis
    unfolding get_result [OF lay assms(2)] contents_at_bucket [OF assms(1)]
    by (auto split: option.splits dest: find_Some simp: find_None_lookup)
qed

lemma stripe_free_update:
  "stripe_free (m\<lparr>mTable := table, mSize := s\<rparr>) key = stripe_free m key"
  by (simp add: stripe_free_def acquire_def getIndex_def getMutex_def mutex_lock_def Let_def
      split: sum.splits)

lemma key_in_bucket:
  assumes "ConcurrentHashmap_inv m"
  shows "key \<in> set (keys_of m) \<longleftrightarrow> key \<in> Node_key ` set (mTable m ! bucket_of m key)"
  using contents_keys [of m key] contents_at_bucket [OF assms, of key]
  by (simp add: chain_lookup_None_iff)

lemma keys_of_mSize: "keys_of (m\<lparr>mSize := s\<rparr>) = keys_of m"
  by (simp add: keys_of_def)

lemma keys_of_update:
  assumes "i < length (mTable m)"
  shows "length (keys_of (m\<lparr>mTable := (mTable m)[i := chain']\<rparr>)) + length (mTable m ! i) =
      length (keys_of m) + length chain'"
    and "map Node_key chain' = map Node_key (mTable m ! i) \<Longrightarrow>
      keys_of (m\<lparr>mTable := (mTable m)[i := chain']\<rparr>) = keys_of m"
proof -
  show "length (keys_of (m\<lparr>mTable := (mTable m)[i := chain']\<rparr>)) + length (mTable m ! i) =
      length (keys_of m) + length chain'"
    using length_concat_update [OF assms, of chain'] by (simp add: keys_of_def)
  assume eq: "map Node_key chain' = map Node_key (mTable m ! i)"
  have "map (map Node_key) ((mTable m)[i := chain']) = (map (map Node_key) (mTable m))[i := map Node_key chain']"
    by (simp add: map_update)
  also have "\<dots> = map (map Node_key) (mTable m)"
    unfolding eq using assms list_update_id [of "map (map Node_key) (mTable m)" i] by simp
  finally show "keys_of (m\<lparr>mTable := (mTable m)[i := chain']\<rparr>) = keys_of m"
    by (simp add: keys_of_def map_concat)
qed

lemma insert_effect:
  assumes inv: "ConcurrentHashmap_inv m" and free: "stripe_free m key"
    and m'_def: "m' = snd (ConcurrentHashmap_insert key v m)"
  shows "ConcurrentHashmap_insert key v m = (Inr (), m')"
    and "ConcurrentHashmap_inv m'"
    and "contents m' = (contents m)(key \<mapsto> v)"
    and "stripe_free m' k \<longleftrightarrow> stripe_free m k"
    and "mMutexes m' = mMutexes m"
    and "key \<notin> set (keys_of m) \<Longrightarrow> mSize m' = mSize m + 1"
    and "key \<notin> set (keys_of m) \<Longrightarrow> length (keys_of m') = Suc (length (keys_of m))"
    and "key \<notin> set (keys_of m) \<Longrightarrow>
      mTable m' ! bucket_of m key = \<lparr>Node_key = key, Node_value = v\<rparr> # mTable m ! bucket_of m key"
    and "key \<in> set (keys_of m) \<Longrightarrow> mSize m' = mSize m"
    and "key \<in> set (keys_of m) \<Longrightarrow> keys_of m' = keys_of m"
proof -
  let ?b = "bucket_of m key"
  let ?chain = "mTable m ! ?b"
  let ?ins = "NodeList_insert ?chain key v"
  have lay: "layout_ok m" using inv by (simp add: ConcurrentHashmap_inv_def)
  have b: "?b < length (mTable m)"
    using bucket_in_range [OF lay, of key] by (simp add: bucket_of_def)
  have res: "m' = m\<lparr>mTable := (mTable m)[?b := fst ?ins],
      mSize := (if snd ?ins then mSize m + 1 else mSize m)\<rparr>"
    unfolding m'_def by (simp add: insert_result [OF lay free])
  show "ConcurrentHashmap_insert key v m = (Inr (), m')"
    unfolding m'_def by (simp add: insert_result [OF lay free])
  show "ConcurrentHashmap_inv m'" and "contents m' = (contents m)(key \<mapsto> v)"
    unfolding m'_def by (rule insert_inv_contents [OF inv free])+
  show "stripe_free m' k \<longleftrightarrow> stripe_free m k"
    unfolding res by (rule stripe_free_update)
  show "mMutexes m' = mMutexes m" unfolding res by simp
  note kb = key_in_bucket [OF inv, of key]
  {
    assume absent: "key \<notin> set (keys_of m)"
    then have ins: "snd ?ins" "fst ?ins = \<lparr>Node_key = key, Node_value = v\<rparr> # ?chain"
      using kb by (simp_all add: NodeList_insert_def find_None_iff [symmetric])
    show "mSize m' = mSize m + 1" unfolding res using ins(1) by simp
    show "length (keys_of m') = Suc (length (keys_of m))"
      unfolding res using keys_of_update(1) [OF b, where chain' = "fst ?ins"] ins(2)
      by (simp add: keys_of_mSize)
    show "mTable m' ! ?b = \<lparr>Node_key = key, Node_value = v\<rparr> # ?chain"
      unfolding res using b ins(2) by simp
  }
  {
    assume present: "key \<in> set (keys_of m)"
    then have "\<not> snd ?ins" and "map Node_key (fst ?ins) = map Node_key ?chain"
      using kb by (simp_all add: insert_inserted insert_keys)
    then show "mSize m' = mSize m" and "keys_of m' = keys_of m"
      unfolding res using keys_of_update(2) [OF b, where chain' = "fst ?ins"]
      by (simp_all add: keys_of_mSize)
  }
qed

lemma erase_effect:
  assumes inv: "ConcurrentHashmap_inv m" and free: "stripe_free m key"
    and m'_def: "m' = snd (ConcurrentHashmap_erase key m)"
  shows "ConcurrentHashmap_erase key m = (Inr (), m')"
    and "ConcurrentHashmap_inv m'"
    and "contents m' = (contents m)(key := None)"
    and "stripe_free m' k \<longleftrightarrow> stripe_free m k"
    and "mMutexes m' = mMutexes m"
    and "key \<in> set (keys_of m) \<Longrightarrow> mSize m' = mSize m - 1"
    and "key \<in> set (keys_of m) \<Longrightarrow> Suc (length (keys_of m')) = length (keys_of m)"
    and "key \<notin> set (keys_of m) \<Longrightarrow> m' = m"
proof -
  let ?b = "bucket_of m key"
  let ?chain = "mTable m ! ?b"
  let ?era = "NodeList_erase ?chain key"
  have lay: "layout_ok m" using inv by (simp add: ConcurrentHashmap_inv_def)
  have b: "?b < length (mTable m)"
    using bucket_in_range [OF lay, of key] by (simp add: bucket_of_def)
  have res: "m' = m\<lparr>mTable := (mTable m)[?b := fst ?era],
      mSize := (if snd ?era then mSize m - 1 else mSize m)\<rparr>"
    unfolding m'_def by (simp add: erase_result [OF lay free])
  show "ConcurrentHashmap_erase key m = (Inr (), m')"
    unfolding m'_def by (simp add: erase_result [OF lay free])
  show "ConcurrentHashmap_inv m'" and "contents m' = (contents m)(key := None)"
    unfolding m'_def by (rule erase_inv_contents [OF inv free])+
  show "stripe_free m' k \<longleftrightarrow> stripe_free m k"
    unfolding res by (rule stripe_free_update)
  show "mMutexes m' = mMutexes m" unfolding res by simp
  note kb = key_in_bucket [OF inv, of key]
  {
    assume present: "key \<in> set (keys_of m)"
    then have era: "snd ?era" using kb by (simp add: erase_erased)
    then show "mSize m' = mSize m - 1" unfolding res by simp
    have "0 < length ?chain" using present kb by auto
    moreover have "length (fst ?era) = length ?chain - 1"
      using present kb by (simp add: erase_length)
    moreover have "length (keys_of m') = length (keys_of (m\<lparr>mTable := (mTable m)[?b := fst ?era]\<rparr>))"
      unfolding res by (simp add: keys_of_mSize)
    ultimately show "Suc (length (keys_of m')) = length (keys_of m)"
      using keys_of_update(1) [OF b, where chain' = "fst ?era"] by arith
  }
  {
    assume absent: "key \<notin> set (keys_of m)"
    then have "?era = (?chain, False)" using kb by (simp add: erase_absent)
    then show "m' = m" unfolding res by simp
  }
qed

lemma run_Cons: "run (c # calls) m = run calls (call_effect c m)"
  by (simp add: run_def)

lemma run_Nil: "run [] m = m"
  by (simp add: run_def)

lemma unlocked_mutexes: "mMutexes m' = mMutexes m \<Longrightarrow> unlocked m' = unlocked m"
  by (simp add: unlocked_def)

lemma inv_free:
  assumes "ConcurrentHashmap_inv m" and "unlocked m"
  shows "stripe_free m key"
  using assms unlocked_free [of m key] by (simp add: ConcurrentHashmap_inv_def)

lemma run_inserts:
  assumes "ConcurrentHashmap_inv m" and "unlocked m"
  shows "ConcurrentHashmap_inv (run (map (\<lambda>(k, v). Insert k v) kvs) m) \<and>
    unlocked (run (map (\<lambda>(k, v). Insert k v) kvs) m) \<and>
    contents (run (map (\<lambda>(k, v). Insert k v) kvs) m) = contents m ++ map_of (rev kvs)"
  using assms
proof (induction kvs arbitrary: m)
  case Nil
  then show ?case by (simp add: run_Nil)
next
  case (Cons kv kvs)
  obtain k v where kv: "kv = (k, v)" by (cases kv)
  let ?m' = "snd (ConcurrentHashmap_insert k v m)"
  note eff = insert_effect [OF Cons.prems(1) inv_free [OF Cons.prems] refl, where v = v]
  have "unlocked ?m'" using unlocked_mutexes [OF eff(5)] Cons.prems(2) by simp
  from Cons.IH [OF eff(2) this] show ?case
    by (simp add: kv run_Cons eff(3) map_add_def fun_eq_iff split: option.splits)
qed

lemma size_after_insert:
  assumes "mSize m' = mSize m + 1" and "unat (mSize m) < 2 ^ 64 - 1"
  shows "unat (mSize m') = unat (mSize m) + 1"
proof -
  have "unat (mSize m) + unat (1 :: size_t) < 2 ^ LENGTH(64)" using assms(2) by simp
  then have "unat (mSize m + 1) = unat (mSize m) + unat (1 :: size_t)"
    by (simp only: unat_add_lem)
  then show ?thesis using assms(1) by simp
qed

lemma size_after_erase:
  assumes "mSize m' = mSize m - 1" and "mSize m \<noteq> 0"
  shows "Suc (unat (mSize m')) = unat (mSize m)"
proof -
  have "unat (mSize m - 1) = unat (mSize m) - 1" using assms(2) by (rule unat_minus_one)
  moreover have "0 < unat (mSize m)" using assms(2) by (simp add: unat_gt_0)
  ultimately show ?thesis using assms(1) by simp
qed

section \<open>Construction and the stripe layout\<close>

lemma new_fields:
  assumes "ConcurrentHashmap_new capacity concurrencyLevel hasher = Inr m"
  shows "mCapacity m = capacity" and "mMutexCount m = min concurrencyLevel capacity"
    and "mHasher m = hasher" and "mSize m = 0"
  by (subst new_Inr(4) [OF assms], simp)+

lemma new_10_16:
  "\<exists>m :: (nat, nat) ConcurrentHashmap. ConcurrentHashmap_new 10 16 hasher = Inr m"
  by (rule new_succeeds) (simp_all add: sizeof_NodeList_def)

text \<open>
  C4. Construction with capacity 0 throws \<open>InvalidCapacity\<close>, whatever the concurrency
  level; with a positive capacity and concurrency level 0 it throws
  \<open>InvalidConcurrencyLevel\<close>; the result is then the exception and no container. With
  capacity 1 and concurrency level 1 it returns a container with one mutex.
\<close>

theorem construction_validation:
  "ConcurrentHashmap_new 0 concurrencyLevel hasher =
     (Inl (Exception InvalidCapacity) :: error + ('k, 'v) ConcurrentHashmap) \<and>
   (capacity \<noteq> 0 \<longrightarrow>
      ConcurrentHashmap_new capacity 0 hasher =
        (Inl (Exception InvalidConcurrencyLevel) :: error + ('k, 'v) ConcurrentHashmap)) \<and>
   (\<exists>m :: ('k, 'v) ConcurrentHashmap.
      ConcurrentHashmap_new 1 1 hasher = Inr m \<and> mMutexCount m = 1 \<and> length (mMutexes m) = 1)"
  by (simp add: ConcurrentHashmap_new_def getMutexCount_def getIndicesPerMutex_def
      new_array_def sizeof_NodeList_def sizeof_mutex_def)

theorem construction_validation_witness:
  "(5 :: size_t) \<noteq> 0 \<and>
   ConcurrentHashmap_new 0 16 (\<lambda>k :: nat. word_of_nat k) =
     (Inl (Exception InvalidCapacity) :: error + (nat, nat) ConcurrentHashmap) \<and>
   ConcurrentHashmap_new 5 0 (\<lambda>k :: nat. word_of_nat k) =
     (Inl (Exception InvalidConcurrencyLevel) :: error + (nat, nat) ConcurrentHashmap)"
  using construction_validation [of 16 "\<lambda>k :: nat. word_of_nat k" 5, where 'v = nat]
  by simp

text \<open>
  The sum \<open>capacity + mutexCount\<close> in \<open>getIndicesPerMutex\<close> is computed in
  \<^verbatim>\<open>std::size_t\<close>. It cannot wrap for a capacity whose bucket array is allocated, since
  the array takes eight bytes per bucket; for a capacity beyond that the sum can wrap, and
  the constructor then throws from the array \<^verbatim>\<open>new\<close> that follows.
\<close>

lemma getIndicesPerMutex_wraps: "getIndicesPerMutex (- 1) 2 = Inr 0"
  by (simp add: getIndicesPerMutex_def)

text \<open>
  C6. For every container the constructor returns, \<open>mIndicesPerMutex\<close> is what
  \<open>getIndicesPerMutex\<close> computes from \<open>mCapacity\<close> and \<open>mMutexCount\<close>, and it is
  the exact ceiling of capacity divided by lock count. For such a capacity the function
  returns the ceiling for every lock count from 1 to the capacity, divisible or not.
\<close>

theorem indicesPerMutex_is_ceiling:
  assumes "ConcurrentHashmap_new capacity concurrencyLevel hasher = Inr m"
  shows "mCapacity m = capacity \<and> mMutexCount m = min concurrencyLevel capacity \<and>
    getIndicesPerMutex (mCapacity m) (mMutexCount m) = Inr (mIndicesPerMutex m) \<and>
    int (unat (mIndicesPerMutex m)) = \<lceil>real (unat (mCapacity m)) / real (unat (mMutexCount m))\<rceil> \<and>
    (\<forall>lockCount. 1 \<le> lockCount \<and> lockCount \<le> capacity \<longrightarrow>
       (\<exists>w. getIndicesPerMutex capacity lockCount = Inr w \<and>
            int (unat w) = \<lceil>real (unat capacity) / real (unat lockCount)\<rceil>))"
proof -
  note f = new_Inr [OF assms]
  have cap: "mCapacity m = capacity" and mc: "mMutexCount m = min concurrencyLevel capacity"
    by (subst f(4), simp)+
  have lay: "layout_ok m" by (rule new_layout_ok [OF assms])
  have pos: "0 < unat (mMutexCount m)" using lay by (simp add: layout_ok_def unat_gt_0)
  have stride: "int (unat (mIndicesPerMutex m)) =
      \<lceil>real (unat (mCapacity m)) / real (unat (mMutexCount m))\<rceil>"
    unfolding layout_stride [OF lay] by (rule ceil_nat [OF pos, symmetric])
  have all: "\<exists>w. getIndicesPerMutex capacity lockCount = Inr w \<and>
      int (unat w) = \<lceil>real (unat capacity) / real (unat lockCount)\<rceil>"
    if lc: "1 \<le> lockCount \<and> lockCount \<le> capacity" for lockCount
  proof -
    have nz: "lockCount \<noteq> 0" using lc by auto
    then have p: "0 < unat lockCount" by (simp add: unat_gt_0)
    have "unat lockCount \<le> unat capacity" using lc by (simp add: word_le_nat_alt)
    moreover have "unat capacity * 8 < 2 ^ 64" using f(3) by (simp add: sizeof_NodeList_def)
    ultimately have "unat capacity + unat lockCount < 2 ^ 64" by arith
    from getIndicesPerMutex_unat [OF nz this] obtain w
      where w: "getIndicesPerMutex capacity lockCount = Inr w"
        "unat w = (unat capacity + unat lockCount - 1) div unat lockCount"
      by blast
    have "int (unat w) = \<lceil>real (unat capacity) / real (unat lockCount)\<rceil>"
      unfolding w(2) by (rule ceil_nat [OF p, symmetric])
    with w(1) show ?thesis by blast
  qed
  have "getIndicesPerMutex (mCapacity m) (mMutexCount m) = Inr (mIndicesPerMutex m)"
    using lay by (simp add: layout_ok_def)
  with cap mc stride all show ?thesis by blast
qed

theorem indicesPerMutex_is_ceiling_witness:
  "\<exists>m :: (nat, nat) ConcurrentHashmap.
     ConcurrentHashmap_new 10 3 (\<lambda>k. word_of_nat k) = Inr m \<and>
     mIndicesPerMutex m = 4 \<and>
     int (unat (mIndicesPerMutex m)) = \<lceil>real (unat (mCapacity m)) / real (unat (mMutexCount m))\<rceil>"
proof -
  obtain m :: "(nat, nat) ConcurrentHashmap"
    where m: "ConcurrentHashmap_new 10 3 (\<lambda>k. word_of_nat k) = Inr m" "mIndicesPerMutex m = 4"
    by (simp add: ConcurrentHashmap_new_def getMutexCount_def getIndicesPerMutex_def
        new_array_def sizeof_NodeList_def sizeof_mutex_def)
  with indicesPerMutex_is_ceiling [OF m(1)] show ?thesis by blast
qed

text \<open>
  C7. For every container the constructor returns, the lock count is the minimum of the
  concurrency level and the capacity, it is at least 1 and at most the capacity, and this
  stays so after any sequence of calls on the container.
\<close>

theorem mutexCount_is_min:
  assumes "ConcurrentHashmap_new capacity concurrencyLevel hasher = Inr m"
  shows "mMutexCount (run calls m) = min concurrencyLevel capacity \<and>
    1 \<le> mMutexCount (run calls m) \<and>
    mMutexCount (run calls m) \<le> mCapacity (run calls m) \<and>
    mCapacity (run calls m) = capacity \<and>
    length (mMutexes (run calls m)) = unat (mMutexCount (run calls m))"
proof -
  note f = new_Inr [OF assms]
  have cap: "mCapacity m = capacity" and mc: "mMutexCount m = min concurrencyLevel capacity"
    by (subst f(4), simp)+
  have "ConcurrentHashmap_inv (run calls m)" by (rule run_inv [OF new_inv(1) [OF assms]])
  then have lay: "layout_ok (run calls m)" by (simp add: ConcurrentHashmap_inv_def)
  then have "mMutexCount (run calls m) \<noteq> 0" by (simp add: layout_ok_def)
  then have "1 \<le> mMutexCount (run calls m)" by (simp add: word_le_nat_alt unat_gt_0 Suc_le_eq)
  then show ?thesis using lay cap mc run_config [of calls m] by (simp add: layout_ok_def)
qed

theorem mutexCount_is_min_witness:
  "\<exists>m :: (nat, nat) ConcurrentHashmap.
     ConcurrentHashmap_new 10 16 (\<lambda>k. word_of_nat k) = Inr m \<and>
     mMutexCount (run [Insert 1 2, Get 1, Erase 7, Unlock 1] m) = 10 \<and>
     1 \<le> mMutexCount (run [Insert 1 2, Get 1, Erase 7, Unlock 1] m) \<and>
     mMutexCount (run [Insert 1 2, Get 1, Erase 7, Unlock 1] m) \<le>
       mCapacity (run [Insert 1 2, Get 1, Erase 7, Unlock 1] m)"
proof -
  obtain m :: "(nat, nat) ConcurrentHashmap"
    where m: "ConcurrentHashmap_new 10 16 (\<lambda>k. word_of_nat k) = Inr m"
    using new_10_16 by blast
  from mutexCount_is_min [OF m, of "[Insert 1 2, Get 1, Erase 7, Unlock 1]"] m
  show ?thesis by (intro exI [of _ m]) simp
qed

text \<open>
  C10. For every container the constructor returns, in whatever state later calls leave
  it, and for every key: \<open>getIndex\<close> returns a bucket index below the capacity, and for
  every bucket index below the capacity the stride is not zero, the lock index
  \<open>tableIndex div mIndicesPerMutex\<close> is below the lock count, and \<open>getMutex\<close> reads
  \<open>mMutexes\<close> within its bounds.
\<close>

theorem mutex_index_in_bounds:
  assumes "ConcurrentHashmap_new capacity concurrencyLevel hasher = Inr m0"
    and "m = run calls m0"
  shows "(\<exists>index. getIndex m key = Inr index \<and> index < mCapacity m \<and>
            getMutex m index = Inr (unat (index div mIndicesPerMutex m))) \<and>
    (\<forall>tableIndex < mCapacity m.
        mIndicesPerMutex m \<noteq> 0 \<and>
        tableIndex div mIndicesPerMutex m < mMutexCount m \<and>
        unat (tableIndex div mIndicesPerMutex m) < length (mMutexes m) \<and>
        getMutex m tableIndex = Inr (unat (tableIndex div mIndicesPerMutex m)))"
proof -
  have "ConcurrentHashmap_inv m"
    unfolding assms(2) by (rule run_inv [OF new_inv(1) [OF assms(1)]])
  then have lay: "layout_ok m" by (simp add: ConcurrentHashmap_inv_def)
  note gi = layout_getIndex [OF lay, of key]
  show ?thesis
    using gi layout_getMutex [OF lay gi(2)] layout_getMutex [OF lay] by simp
qed

theorem mutex_index_in_bounds_witness:
  "\<exists>m0 m :: (nat, nat) ConcurrentHashmap.
     ConcurrentHashmap_new 10 3 (\<lambda>k. word_of_nat k) = Inr m0 \<and>
     m = run [Insert 1 2, Insert 9 4] m0 \<and>
     (\<exists>index. getIndex m 9 = Inr index \<and> index < mCapacity m \<and>
        getMutex m index = Inr (unat (index div mIndicesPerMutex m))) \<and>
     unat ((9 :: size_t) div mIndicesPerMutex m) < length (mMutexes m)"
proof -
  obtain m0 :: "(nat, nat) ConcurrentHashmap"
    where m0: "ConcurrentHashmap_new 10 3 (\<lambda>k. word_of_nat k) = Inr m0"
    using new_succeeds [of 10 3] by (auto simp: sizeof_NodeList_def)
  define m where "m = run [Insert 1 2, Insert 9 4] m0"
  have cap: "mCapacity m = 10"
    using run_config [of "[Insert 1 2, Insert 9 4]" m0] new_fields(1) [OF m0] by (simp add: m_def)
  from mutex_index_in_bounds [OF m0 m_def, of 9] cap
  have "(\<exists>index. getIndex m 9 = Inr index \<and> index < mCapacity m \<and>
        getMutex m index = Inr (unat (index div mIndicesPerMutex m))) \<and>
     unat ((9 :: size_t) div mIndicesPerMutex m) < length (mMutexes m)"
    by simp
  with m0 m_def show ?thesis by blast
qed

section \<open>Insert, lookup and erase\<close>

lemma insert_determined:
  "ConcurrentHashmap_insert key v m = (r, m') \<Longrightarrow> m' = snd (ConcurrentHashmap_insert key v m)"
  by simp

lemma erase_determined:
  "ConcurrentHashmap_erase key m = (r, m') \<Longrightarrow> m' = snd (ConcurrentHashmap_erase key m)"
  by simp

text \<open>
  C1. \<open>insert\<close> is an upsert. On every container that satisfies the invariant and whose
  stripe lock for the key is free (otherwise the call blocks), \<open>insert\<close> returns normally
  with the lock released again, and the map denoted afterwards is the old one with the key
  mapped to the value, so a following \<open>getCopy\<close> of the key returns that value. If the key
  was absent, a node with the key and the value is the new head of the key's chain, the
  number of entries grows by one and \<open>size()\<close> is the old \<open>size()\<close> plus one in
  \<^verbatim>\<open>std::size_t\<close>, which is one more as a number unless the counter stood at its
  maximum. If the key was present, the keys stored and \<open>size()\<close> are unchanged.
\<close>

theorem insert_upsert:
  assumes "ConcurrentHashmap_inv m" and "stripe_free m key"
  shows "\<exists>m'. ConcurrentHashmap_insert key v m = (Inr (), m') \<and>
      ConcurrentHashmap_inv m' \<and> mMutexes m' = mMutexes m \<and>
      contents m' = (contents m)(key \<mapsto> v) \<and>
      ConcurrentHashmap_getCopy key m' = (Inr v, m') \<and>
      (key \<notin> set (keys_of m) \<longrightarrow>
         ConcurrentHashmap_size m' = ConcurrentHashmap_size m + 1 \<and>
         (unat (ConcurrentHashmap_size m) < 2 ^ 64 - 1 \<longrightarrow>
            unat (ConcurrentHashmap_size m') = unat (ConcurrentHashmap_size m) + 1) \<and>
         length (keys_of m') = length (keys_of m) + 1 \<and>
         mTable m' ! bucket_of m key =
           \<lparr>Node_key = key, Node_value = v\<rparr> # mTable m ! bucket_of m key) \<and>
      (key \<in> set (keys_of m) \<longrightarrow>
         ConcurrentHashmap_size m' = ConcurrentHashmap_size m \<and> keys_of m' = keys_of m)"
proof -
  let ?m' = "snd (ConcurrentHashmap_insert key v m)"
  note eff = insert_effect [OF assms refl, where v = v]
  have free': "stripe_free ?m' key" using eff(4) [of key] assms(2) by simp
  have "ConcurrentHashmap_getCopy key ?m' = (Inr v, ?m')"
    using getCopy_contents [OF eff(2) free'] by (simp add: eff(3))
  moreover have "unat (mSize ?m') = unat (mSize m) + 1"
    if "key \<notin> set (keys_of m)" "unat (mSize m) < 2 ^ 64 - 1"
    using size_after_insert [OF eff(6) [OF that(1)] that(2)] .
  ultimately show ?thesis
    using eff(1,2,3,5,6,7,8,9,10) by (intro exI [of _ ?m']) (simp add: ConcurrentHashmap_size_def)
qed

theorem insert_upsert_witness:
  "\<exists>m0 m1 m2 :: (nat, nat) ConcurrentHashmap.
     ConcurrentHashmap_new 10 16 (\<lambda>k. word_of_nat k) = Inr m0 \<and>
     ConcurrentHashmap_inv m0 \<and> stripe_free m0 1 \<and> 1 \<notin> set (keys_of m0) \<and>
     ConcurrentHashmap_insert 1 1 m0 = (Inr (), m1) \<and>
     ConcurrentHashmap_size m1 = 1 \<and>
     ConcurrentHashmap_inv m1 \<and> stripe_free m1 1 \<and> 1 \<in> set (keys_of m1) \<and>
     ConcurrentHashmap_insert 1 10 m1 = (Inr (), m2) \<and>
     ConcurrentHashmap_size m2 = 1 \<and>
     ConcurrentHashmap_getCopy 1 m2 = (Inr 10, m2)"
proof -
  obtain m0 :: "(nat, nat) ConcurrentHashmap"
    where m0: "ConcurrentHashmap_new 10 16 (\<lambda>k. word_of_nat k) = Inr m0"
    using new_10_16 by blast
  note n = new_inv [OF m0]
  have free0: "stripe_free m0 1" by (rule inv_free [OF n(1,2)])
  have absent0: "1 \<notin> set (keys_of m0)" using contents_keys [of m0 1] n(4) by simp
  from insert_upsert [OF n(1) free0, of 1] absent0 obtain m1
    where m1: "ConcurrentHashmap_insert 1 1 m0 = (Inr (), m1)" "ConcurrentHashmap_inv m1"
      "mMutexes m1 = mMutexes m0" "contents m1 = (contents m0)(1 \<mapsto> 1)"
      "ConcurrentHashmap_size m1 = ConcurrentHashmap_size m0 + 1"
    by blast
  have size1: "ConcurrentHashmap_size m1 = 1"
    using m1(5) new_fields(4) [OF m0] by (simp add: ConcurrentHashmap_size_def)
  have free1: "stripe_free m1 1"
    using unlocked_mutexes [OF m1(3)] n(2) by (intro inv_free [OF m1(2)]) simp
  have present1: "1 \<in> set (keys_of m1)" using contents_keys [of m1 1] m1(4) by simp
  from insert_upsert [OF m1(2) free1, of 10] present1 obtain m2
    where m2: "ConcurrentHashmap_insert 1 10 m1 = (Inr (), m2)"
      "ConcurrentHashmap_getCopy 1 m2 = (Inr 10, m2)"
      "ConcurrentHashmap_size m2 = ConcurrentHashmap_size m1"
    by blast
  show ?thesis
    using m0 n(1) free0 absent0 m1(1,2) size1 free1 present1 m2 by (intro exI conjI) simp_all
qed

text \<open>
  C2. For a key that is stored nowhere in the table, on a container that satisfies the
  invariant and whose stripe lock for the key is free, \<open>find\<close> returns false and
  \<open>getCopy\<close> and \<open>get\<close> throw \<open>KeyNotFound\<close>; the container afterwards is the
  container before, so nothing has changed and no mutex is held that was not held before.
  On a container fresh from the constructor, \<open>insert k v\<close> returns normally, a following
  \<open>getCopy k\<close> returns \<open>v\<close>, and \<open>size()\<close> is 1.
\<close>

theorem absent_key_contract:
  "(ConcurrentHashmap_inv m \<and> stripe_free m key \<and> key \<notin> set (keys_of m) \<longrightarrow>
      ConcurrentHashmap_find key m = (Inr False, m) \<and>
      ConcurrentHashmap_getCopy key m = (Inl (Exception KeyNotFound), m) \<and>
      ConcurrentHashmap_get key m = (Inl (Exception KeyNotFound), m)) \<and>
   (ConcurrentHashmap_new capacity concurrencyLevel hasher = Inr m0 \<longrightarrow>
      (\<exists>m1. ConcurrentHashmap_insert k v m0 = (Inr (), m1) \<and>
            ConcurrentHashmap_getCopy k m1 = (Inr v, m1) \<and>
            ConcurrentHashmap_size m1 = 1))"
proof (intro conjI impI)
  assume a: "ConcurrentHashmap_inv m \<and> stripe_free m key \<and> key \<notin> set (keys_of m)"
  then have inv: "ConcurrentHashmap_inv m" and free: "stripe_free m key"
    and none: "contents m key = None"
    by (simp_all add: contents_keys)
  show "ConcurrentHashmap_find key m = (Inr False, m)"
    using find_contents [OF inv free] none by simp
  show "ConcurrentHashmap_getCopy key m = (Inl (Exception KeyNotFound), m)"
    using getCopy_contents [OF inv free] none by simp
  show "ConcurrentHashmap_get key m = (Inl (Exception KeyNotFound), m)"
    using get_contents [OF inv free] none by simp
next
  assume new: "ConcurrentHashmap_new capacity concurrencyLevel hasher = Inr m0"
  note n = new_inv [OF new]
  let ?m1 = "snd (ConcurrentHashmap_insert k v m0)"
  have free: "stripe_free m0 k" by (rule inv_free [OF n(1,2)])
  note eff = insert_effect [OF n(1) free refl, where v = v]
  have absent: "k \<notin> set (keys_of m0)" using contents_keys [of m0 k] n(4) by simp
  have "ConcurrentHashmap_size ?m1 = 1"
    using eff(6) [OF absent] new_fields(4) [OF new] by (simp add: ConcurrentHashmap_size_def)
  moreover have "stripe_free ?m1 k" using eff(4) [of k] free by simp
  then have "ConcurrentHashmap_getCopy k ?m1 = (Inr v, ?m1)"
    using getCopy_contents [OF eff(2)] by (simp add: eff(3))
  ultimately show "\<exists>m1. ConcurrentHashmap_insert k v m0 = (Inr (), m1) \<and>
      ConcurrentHashmap_getCopy k m1 = (Inr v, m1) \<and> ConcurrentHashmap_size m1 = 1"
    using eff(1) by blast
qed

theorem absent_key_contract_witness:
  "\<exists>m0 m1 :: (nat, nat) ConcurrentHashmap.
     ConcurrentHashmap_new 10 16 (\<lambda>k. word_of_nat k) = Inr m0 \<and>
     ConcurrentHashmap_insert 1 2 m0 = (Inr (), m1) \<and>
     ConcurrentHashmap_getCopy 1 m1 = (Inr 2, m1) \<and>
     ConcurrentHashmap_size m1 = 1 \<and>
     ConcurrentHashmap_inv m1 \<and> stripe_free m1 2 \<and> 2 \<notin> set (keys_of m1) \<and>
     ConcurrentHashmap_find 2 m1 = (Inr False, m1) \<and>
     ConcurrentHashmap_getCopy 2 m1 = (Inl (Exception KeyNotFound), m1) \<and>
     ConcurrentHashmap_get 2 m1 = (Inl (Exception KeyNotFound), m1)"
proof -
  obtain m0 :: "(nat, nat) ConcurrentHashmap"
    where m0: "ConcurrentHashmap_new 10 16 (\<lambda>k. word_of_nat k) = Inr m0"
    using new_10_16 by blast
  note n = new_inv [OF m0]
  from absent_key_contract [of undefined undefined 10 16 "\<lambda>k. word_of_nat k" m0 1 2] m0
  obtain m1 where m1: "ConcurrentHashmap_insert 1 2 m0 = (Inr (), m1)"
    "ConcurrentHashmap_getCopy 1 m1 = (Inr 2, m1)" "ConcurrentHashmap_size m1 = 1"
    by blast
  note eff = insert_effect [OF n(1) inv_free [OF n(1,2)] insert_determined [OF m1(1)]]
  have free1: "stripe_free m1 2"
    using unlocked_mutexes [OF eff(5)] n(2) by (intro inv_free [OF eff(2)]) simp
  have absent1: "2 \<notin> set (keys_of m1)"
    using contents_keys [of m1 2] by (simp add: eff(3) n(4))
  from absent_key_contract [of m1 2 10 16 "\<lambda>k. word_of_nat k" m0 1 2] eff(2) free1 absent1
  have "ConcurrentHashmap_find 2 m1 = (Inr False, m1) \<and>
      ConcurrentHashmap_getCopy 2 m1 = (Inl (Exception KeyNotFound), m1) \<and>
      ConcurrentHashmap_get 2 m1 = (Inl (Exception KeyNotFound), m1)"
    by blast
  with m0 m1 eff(2) free1 absent1 show ?thesis by blast
qed

text \<open>
  C3. On every container that satisfies the invariant and whose stripe lock for the key is
  free, \<open>erase\<close> returns normally with the lock released again, and the map denoted
  afterwards is the old one without the key. If the key was present, the number of entries
  drops by one and \<open>size()\<close> is the old \<open>size()\<close> minus one in \<^verbatim>\<open>std::size_t\<close>, which
  is one less as a number unless the counter stood at zero. If the key was absent, the
  container afterwards is the container before.
\<close>

theorem erase_contract:
  assumes "ConcurrentHashmap_inv m" and "stripe_free m key"
  shows "\<exists>m'. ConcurrentHashmap_erase key m = (Inr (), m') \<and>
      ConcurrentHashmap_inv m' \<and> mMutexes m' = mMutexes m \<and>
      contents m' = (contents m)(key := None) \<and>
      key \<notin> set (keys_of m') \<and>
      (key \<in> set (keys_of m) \<longrightarrow>
         ConcurrentHashmap_size m' = ConcurrentHashmap_size m - 1 \<and>
         (ConcurrentHashmap_size m \<noteq> 0 \<longrightarrow>
            unat (ConcurrentHashmap_size m') + 1 = unat (ConcurrentHashmap_size m)) \<and>
         length (keys_of m') + 1 = length (keys_of m)) \<and>
      (key \<notin> set (keys_of m) \<longrightarrow> m' = m)"
proof -
  let ?m' = "snd (ConcurrentHashmap_erase key m)"
  note eff = erase_effect [OF assms refl]
  have "key \<notin> set (keys_of ?m')"
    using contents_keys [of ?m' key] by (simp add: eff(3))
  moreover have "unat (mSize ?m') + 1 = unat (mSize m)"
    if "key \<in> set (keys_of m)" "mSize m \<noteq> 0"
    using size_after_erase [OF eff(6) [OF that(1)] that(2)] by simp
  ultimately show ?thesis
    using eff(1,2,3,5,6,7,8) by (intro exI [of _ ?m']) (simp add: ConcurrentHashmap_size_def)
qed

theorem erase_contract_witness:
  "\<exists>m0 m1 m2 :: (nat, nat) ConcurrentHashmap.
     ConcurrentHashmap_new 10 16 (\<lambda>k. word_of_nat k) = Inr m0 \<and>
     ConcurrentHashmap_insert 1 2 m0 = (Inr (), m1) \<and>
     ConcurrentHashmap_size m1 = 1 \<and>
     ConcurrentHashmap_inv m1 \<and> stripe_free m1 3 \<and> stripe_free m1 1 \<and>
     3 \<notin> set (keys_of m1) \<and> 1 \<in> set (keys_of m1) \<and>
     ConcurrentHashmap_erase 3 m1 = (Inr (), m1) \<and>
     ConcurrentHashmap_erase 1 m1 = (Inr (), m2) \<and>
     ConcurrentHashmap_size m2 = 0 \<and> 1 \<notin> set (keys_of m2)"
proof -
  obtain m0 :: "(nat, nat) ConcurrentHashmap"
    where m0: "ConcurrentHashmap_new 10 16 (\<lambda>k. word_of_nat k) = Inr m0"
    using new_10_16 by blast
  note n = new_inv [OF m0]
  define m1 where "m1 = snd (ConcurrentHashmap_insert 1 2 m0)"
  note eff = insert_effect [OF n(1) inv_free [OF n(1,2)] m1_def]
  have absent0: "1 \<notin> set (keys_of m0)" using contents_keys [of m0 1] n(4) by simp
  have size1: "ConcurrentHashmap_size m1 = 1"
    using eff(6) [OF absent0] new_fields(4) [OF m0] by (simp add: ConcurrentHashmap_size_def)
  have free1: "stripe_free m1 k" for k
    using unlocked_mutexes [OF eff(5)] n(2) by (intro inv_free [OF eff(2)]) simp
  have absent3: "3 \<notin> set (keys_of m1)"
    using contents_keys [of m1 3] by (simp add: eff(3) n(4))
  have present1: "1 \<in> set (keys_of m1)"
    using contents_keys [of m1 1] by (simp add: eff(3))
  from erase_contract [OF eff(2) free1, of 3] absent3
  have e3: "ConcurrentHashmap_erase 3 m1 = (Inr (), m1)" by auto
  from erase_contract [OF eff(2) free1, of 1] present1 obtain m2
    where m2: "ConcurrentHashmap_erase 1 m1 = (Inr (), m2)" "1 \<notin> set (keys_of m2)"
      "ConcurrentHashmap_size m2 = ConcurrentHashmap_size m1 - 1"
    by blast
  show ?thesis
    using m0 eff(1,2) size1 free1 absent3 present1 e3 m2 by (intro exI conjI) simp_all
qed

text \<open>
  C5. At most one entry per key in a chain: \<open>NodeList::insert\<close> and \<open>NodeList::erase\<close> keep
  the keys of a chain distinct. The container's invariant (every chain has distinct keys
  and every node sits in the bucket of its key) makes the keys of the whole table distinct,
  and every call (\<open>find\<close>, \<open>getCopy\<close>, \<open>get\<close>, \<open>insert\<close>, \<open>erase\<close>, the release of a
  \<open>get\<close> lock) preserves it; it holds of a container fresh from the constructor and so
  after any sequence of calls.
\<close>

theorem unique_keys_preserved:
  "(unique_keys chain \<longrightarrow>
      unique_keys (fst (NodeList_insert chain key v)) \<and>
      unique_keys (fst (NodeList_erase chain key))) \<and>
   (ConcurrentHashmap_inv m \<longrightarrow>
      list_all unique_keys (mTable m) \<and> distinct (keys_of m) \<and>
      ConcurrentHashmap_inv (call_effect c m)) \<and>
   (ConcurrentHashmap_new capacity concurrencyLevel hasher = Inr m0 \<longrightarrow>
      ConcurrentHashmap_inv (run calls m0))"
  using insert_unique [of chain key v] erase_unique [of chain key]
    inv_distinct_keys [of m] call_effect_inv [of m c]
    run_inv [OF new_inv(1), of capacity concurrencyLevel hasher m0 calls]
  by (auto simp: ConcurrentHashmap_inv_def)

theorem unique_keys_preserved_witness:
  "\<exists>m0 m :: (nat, nat) ConcurrentHashmap.
     ConcurrentHashmap_new 10 16 (\<lambda>k. 0) = Inr m0 \<and>
     m = run [Insert 1 1, Insert 2 5, Insert 1 10, Erase 2, Insert 3 7] m0 \<and>
     ConcurrentHashmap_inv m \<and> list_all unique_keys (mTable m) \<and> distinct (keys_of m) \<and>
     ConcurrentHashmap_inv (call_effect (Insert 3 8) m) \<and>
     unique_keys [\<lparr>Node_key = 2 :: nat, Node_value = 5 :: nat\<rparr>, \<lparr>Node_key = 1, Node_value = 1\<rparr>] \<and>
     unique_keys (fst (NodeList_insert
       [\<lparr>Node_key = 2 :: nat, Node_value = 5 :: nat\<rparr>, \<lparr>Node_key = 1, Node_value = 1\<rparr>] 1 10)) \<and>
     unique_keys (fst (NodeList_erase
       [\<lparr>Node_key = 2 :: nat, Node_value = 5 :: nat\<rparr>, \<lparr>Node_key = 1, Node_value = 1\<rparr>] 1))"
proof -
  obtain m0 :: "(nat, nat) ConcurrentHashmap"
    where m0: "ConcurrentHashmap_new 10 16 (\<lambda>k. 0) = Inr m0"
    using new_10_16 by blast
  define m where "m = run [Insert 1 1, Insert 2 5, Insert 1 10, Erase 2, Insert 3 7] m0"
  let ?chain = "[\<lparr>Node_key = 2 :: nat, Node_value = 5 :: nat\<rparr>, \<lparr>Node_key = 1, Node_value = 1\<rparr>]"
  have u: "unique_keys ?chain" by (simp add: unique_keys_def)
  have inv: "ConcurrentHashmap_inv m"
    using unique_keys_preserved
      [of ?chain 1 10 m "Insert 3 8" 10 16 "\<lambda>k. 0" m0
        "[Insert 1 1, Insert 2 5, Insert 1 10, Erase 2, Insert 3 7]"] m0
    by (simp add: m_def)
  from unique_keys_preserved
      [of ?chain 1 10 m "Insert 3 8" 10 16 "\<lambda>k. 0" m0
        "[Insert 1 1, Insert 2 5, Insert 1 10, Erase 2, Insert 3 7]"] u inv
  have "list_all unique_keys (mTable m) \<and> distinct (keys_of m) \<and>
      ConcurrentHashmap_inv (call_effect (Insert 3 8) m) \<and>
      unique_keys (fst (NodeList_insert ?chain 1 10)) \<and>
      unique_keys (fst (NodeList_erase ?chain 1))"
    by blast
  with m0 m_def inv u show ?thesis by blast
qed

text \<open>
  C8. \<open>erase\<close> touches the erased key only. On every container that satisfies the invariant
  and whose stripe lock for the key is free, after \<open>erase key\<close> a \<open>find\<close> of the key
  returns false, every other key denotes what it denoted before, and \<open>find\<close> and
  \<open>getCopy\<close> of every other key return what they returned before. In particular, for any
  hasher (a constant one sends all keys to one bucket), after inserting pairs with distinct
  keys into a fresh container every key is found with its value, and after erasing one
  key every other inserted key is still found with its value.
\<close>

theorem erase_frame:
  "(ConcurrentHashmap_inv m \<and> stripe_free m key \<longrightarrow>
      fst (ConcurrentHashmap_erase key m) = Inr () \<and>
      fst (ConcurrentHashmap_find key (snd (ConcurrentHashmap_erase key m))) = Inr False \<and>
      (\<forall>k. k \<noteq> key \<longrightarrow>
         contents (snd (ConcurrentHashmap_erase key m)) k = contents m k) \<and>
      (\<forall>k. k \<noteq> key \<and> stripe_free m k \<longrightarrow>
         fst (ConcurrentHashmap_find k (snd (ConcurrentHashmap_erase key m))) =
           fst (ConcurrentHashmap_find k m) \<and>
         fst (ConcurrentHashmap_getCopy k (snd (ConcurrentHashmap_erase key m))) =
           fst (ConcurrentHashmap_getCopy k m))) \<and>
   (ConcurrentHashmap_new capacity concurrencyLevel hasher = Inr m0 \<and>
    distinct (map fst kvs) \<and>
    m1 = run (map (\<lambda>(k, v). Insert k v) kvs) m0 \<and>
    m2 = snd (ConcurrentHashmap_erase key m1) \<longrightarrow>
      fst (ConcurrentHashmap_erase key m1) = Inr () \<and>
      fst (ConcurrentHashmap_find key m2) = Inr False \<and>
      (\<forall>(k, v) \<in> set kvs.
         fst (ConcurrentHashmap_find k m1) = Inr True \<and>
         fst (ConcurrentHashmap_getCopy k m1) = Inr v \<and>
         (k \<noteq> key \<longrightarrow>
            fst (ConcurrentHashmap_find k m2) = Inr True \<and>
            fst (ConcurrentHashmap_getCopy k m2) = Inr v)))"
proof (intro conjI impI)
  assume "ConcurrentHashmap_inv m \<and> stripe_free m key"
  then have inv: "ConcurrentHashmap_inv m" and free: "stripe_free m key" by simp_all
  let ?m' = "snd (ConcurrentHashmap_erase key m)"
  note eff = erase_effect [OF inv free refl]
  show "fst (ConcurrentHashmap_erase key m) = Inr ()" using arg_cong [OF eff(1), of fst] by simp
  have free': "stripe_free ?m' k" if "stripe_free m k" for k using eff(4) [of k] that by simp
  show "fst (ConcurrentHashmap_find key ?m') = Inr False"
    using find_contents [OF eff(2) free' [OF free]] by (simp add: eff(3))
  show "\<forall>k. k \<noteq> key \<longrightarrow> contents ?m' k = contents m k" by (simp add: eff(3))
  show "\<forall>k. k \<noteq> key \<and> stripe_free m k \<longrightarrow>
      fst (ConcurrentHashmap_find k ?m') = fst (ConcurrentHashmap_find k m) \<and>
      fst (ConcurrentHashmap_getCopy k ?m') = fst (ConcurrentHashmap_getCopy k m)"
    using find_contents [OF eff(2) free'] getCopy_contents [OF eff(2) free']
      find_contents [OF inv] getCopy_contents [OF inv]
    by (simp add: eff(3))
next
  assume a: "ConcurrentHashmap_new capacity concurrencyLevel hasher = Inr m0 \<and>
    distinct (map fst kvs) \<and>
    m1 = run (map (\<lambda>(k, v). Insert k v) kvs) m0 \<and>
    m2 = snd (ConcurrentHashmap_erase key m1)"
  then have new: "ConcurrentHashmap_new capacity concurrencyLevel hasher = Inr m0"
    and dist: "distinct (map fst kvs)"
    and m1: "m1 = run (map (\<lambda>(k, v). Insert k v) kvs) m0"
    and m2: "m2 = snd (ConcurrentHashmap_erase key m1)"
    by simp_all
  note n = new_inv [OF new]
  have inv1: "ConcurrentHashmap_inv m1" and unl1: "unlocked m1"
    and c1: "contents m1 = map_of (rev kvs)"
    using run_inserts [OF n(1,2), of kvs] by (simp_all add: m1 n(4))
  have free1: "stripe_free m1 k" for k by (rule inv_free [OF inv1 unl1])
  note eff = erase_effect [OF inv1 free1 m2]
  have free2: "stripe_free m2 k" for k using eff(4) [of k] free1 by simp
  show "fst (ConcurrentHashmap_erase key m1) = Inr ()" using arg_cong [OF eff(1), of fst] by simp
  show "fst (ConcurrentHashmap_find key m2) = Inr False"
    using find_contents [OF eff(2) free2] by (simp add: eff(3))
  have look: "contents m1 k = Some v" if "(k, v) \<in> set kvs" for k v
    unfolding c1 using that dist by (intro map_of_is_SomeI) (simp_all add: rev_map [symmetric])
  show "\<forall>(k, v) \<in> set kvs.
      fst (ConcurrentHashmap_find k m1) = Inr True \<and>
      fst (ConcurrentHashmap_getCopy k m1) = Inr v \<and>
      (k \<noteq> key \<longrightarrow>
         fst (ConcurrentHashmap_find k m2) = Inr True \<and>
         fst (ConcurrentHashmap_getCopy k m2) = Inr v)"
    using look find_contents [OF inv1 free1] getCopy_contents [OF inv1 free1]
      find_contents [OF eff(2) free2] getCopy_contents [OF eff(2) free2]
    by (auto simp: eff(3))
qed

theorem erase_frame_witness:
  "\<exists>m0 m1 m2 :: (nat, nat) ConcurrentHashmap.
     ConcurrentHashmap_new 10 16 (\<lambda>k. 0) = Inr m0 \<and>
     distinct (map fst [(1 :: nat, 2 :: nat), (3, 4), (5, 6)]) \<and>
     m1 = run (map (\<lambda>(k, v). Insert k v) [(1, 2), (3, 4), (5, 6)]) m0 \<and>
     m2 = snd (ConcurrentHashmap_erase 3 m1) \<and>
     ConcurrentHashmap_inv m1 \<and> stripe_free m1 3 \<and> stripe_free m1 1 \<and>
     bucket_of m1 1 = bucket_of m1 3 \<and> bucket_of m1 5 = bucket_of m1 3 \<and>
     fst (ConcurrentHashmap_erase 3 m1) = Inr () \<and>
     fst (ConcurrentHashmap_find 3 m2) = Inr False \<and>
     fst (ConcurrentHashmap_find 1 m2) = Inr True \<and>
     fst (ConcurrentHashmap_getCopy 1 m2) = Inr 2 \<and>
     fst (ConcurrentHashmap_find 5 m2) = Inr True \<and>
     fst (ConcurrentHashmap_getCopy 5 m2) = Inr 6 \<and>
     fst (ConcurrentHashmap_find 1 m2) = fst (ConcurrentHashmap_find 1 m1) \<and>
     fst (ConcurrentHashmap_getCopy 1 m2) = fst (ConcurrentHashmap_getCopy 1 m1)"
proof -
  obtain m0 :: "(nat, nat) ConcurrentHashmap"
    where m0: "ConcurrentHashmap_new 10 16 (\<lambda>k. 0) = Inr m0"
    using new_10_16 by blast
  let ?kvs = "[(1 :: nat, 2 :: nat), (3, 4), (5, 6)]"
  define m1 where "m1 = run (map (\<lambda>(k, v). Insert k v) ?kvs) m0"
  define m2 where "m2 = snd (ConcurrentHashmap_erase 3 m1)"
  note n = new_inv [OF m0]
  have inv1: "ConcurrentHashmap_inv m1" and unl1: "unlocked m1"
    using run_inserts [OF n(1,2), of ?kvs] by (simp_all add: m1_def)
  have free1: "stripe_free m1 k" for k by (rule inv_free [OF inv1 unl1])
  have d: "distinct (map fst ?kvs)" by simp
  have "mHasher m1 = (\<lambda>k. 0)"
    using run_config [of "map (\<lambda>(k, v). Insert k v) ?kvs" m0] new_fields(3) [OF m0]
    by (simp add: m1_def)
  then have b: "bucket_of m1 k = bucket_of m1 3" for k by (simp add: bucket_of_def)
  note t = erase_frame [of m1 3 10 16 "\<lambda>k. 0" m0 ?kvs m1 m2]
  have scenario: "fst (ConcurrentHashmap_erase 3 m1) = Inr () \<and>
      fst (ConcurrentHashmap_find 3 m2) = Inr False \<and>
      fst (ConcurrentHashmap_find 1 m2) = Inr True \<and>
      fst (ConcurrentHashmap_getCopy 1 m2) = Inr 2 \<and>
      fst (ConcurrentHashmap_find 5 m2) = Inr True \<and>
      fst (ConcurrentHashmap_getCopy 5 m2) = Inr 6"
    using t m0 d m1_def m2_def by simp
  have frame: "fst (ConcurrentHashmap_find 1 m2) = fst (ConcurrentHashmap_find 1 m1) \<and>
      fst (ConcurrentHashmap_getCopy 1 m2) = fst (ConcurrentHashmap_getCopy 1 m1)"
    using t inv1 free1 [of 3] free1 [of 1] by (simp add: m2_def)
  from m0 d m1_def m2_def inv1 free1 [of 3] free1 [of 1] b [of 1] b [of 5] scenario frame
  show ?thesis by blast
qed

section \<open>Inserts one after another\<close>

text \<open>
  The operations above are the bodies of the critical sections. When the calls of several
  clients are made one after another, in any order, inserting pairs with distinct keys into
  a fresh container leaves \<open>size()\<close> at the number of pairs and every key found. That
  the mutexes make concurrent calls behave like some such order is outside this model.
\<close>

lemma size_ok_keys: "size_ok m \<longleftrightarrow> unat (mSize m) = length (keys_of m)"
  by (simp add: size_ok_def keys_of_def)

lemma run_inserts_size:
  assumes "ConcurrentHashmap_inv m" and "unlocked m" and "size_ok m"
    and "distinct (map fst kvs)" and "set (map fst kvs) \<inter> set (keys_of m) = {}"
    and "length (keys_of m) + length kvs < 2 ^ 64"
  shows "size_ok (run (map (\<lambda>(k, v). Insert k v) kvs) m) \<and>
    length (keys_of (run (map (\<lambda>(k, v). Insert k v) kvs) m)) = length (keys_of m) + length kvs"
  using assms
proof (induction kvs arbitrary: m)
  case Nil
  then show ?case by (simp add: run_Nil)
next
  case (Cons kv kvs)
  obtain k v where kv: "kv = (k, v)" by (cases kv)
  let ?m' = "snd (ConcurrentHashmap_insert k v m)"
  note eff = insert_effect [OF Cons.prems(1) inv_free [OF Cons.prems(1,2)] refl, where v = v]
  have absent: "k \<notin> set (keys_of m)" using Cons.prems(5) kv by simp
  have unl: "unlocked ?m'" using unlocked_mutexes [OF eff(5)] Cons.prems(2) by simp
  have len: "length (keys_of ?m') = Suc (length (keys_of m))" by (rule eff(7) [OF absent])
  have "unat (mSize m) < 2 ^ 64 - 1"
    using Cons.prems(3,6) by (simp add: size_ok_keys)
  from size_after_insert [OF eff(6) [OF absent] this]
  have sz: "size_ok ?m'" using Cons.prems(3) len by (simp add: size_ok_keys)
  have keys: "set (keys_of ?m') = insert k (set (keys_of m))"
  proof (rule set_eqI)
    fix x
    show "x \<in> set (keys_of ?m') \<longleftrightarrow> x \<in> insert k (set (keys_of m))"
      using contents_keys [of ?m' x] contents_keys [of m x] by (auto simp: eff(3) split: if_splits)
  qed
  have "size_ok (run (map (\<lambda>(k, v). Insert k v) kvs) ?m') \<and>
    length (keys_of (run (map (\<lambda>(k, v). Insert k v) kvs) ?m')) = length (keys_of ?m') + length kvs"
  proof (rule Cons.IH [OF eff(2) unl sz])
    show "distinct (map fst kvs)" using Cons.prems(4) by simp
    show "set (map fst kvs) \<inter> set (keys_of ?m') = {}"
      using Cons.prems(4,5) kv by (auto simp: keys)
    show "length (keys_of ?m') + length kvs < 2 ^ 64" using Cons.prems(6) len by simp
  qed
  then show ?case by (simp add: kv run_Cons len)
qed

lemma sequential_insert_completeness:
  assumes new: "ConcurrentHashmap_new capacity concurrencyLevel hasher = Inr m0"
    and dist: "distinct (map fst kvs)" and len: "length kvs < 2 ^ 64"
    and m: "m = run (map (\<lambda>(k, v). Insert k v) kvs) m0"
  shows "unat (ConcurrentHashmap_size m) = length kvs"
    and "(k, v) \<in> set kvs \<Longrightarrow> ConcurrentHashmap_find k m = (Inr True, m)"
proof -
  note n = new_inv [OF new]
  have empty: "keys_of m0 = []"
    by (subst new_Inr(4) [OF new]) (simp add: keys_of_def)
  from run_inserts_size [OF n(1,2,3) dist, unfolded empty] len
  show "unat (ConcurrentHashmap_size m) = length kvs"
    by (simp add: m size_ok_keys ConcurrentHashmap_size_def)
  assume "(k, v) \<in> set kvs"
  then have "map_of (rev kvs) k = Some v"
    using dist by (intro map_of_is_SomeI) (simp_all add: rev_map [symmetric])
  moreover have "ConcurrentHashmap_inv m" and "unlocked m" and "contents m = map_of (rev kvs)"
    using run_inserts [OF n(1,2), of kvs] by (simp_all add: m n(4))
  ultimately show "ConcurrentHashmap_find k m = (Inr True, m)"
    using find_contents [OF _ inv_free, of m k] by simp
qed

end
